theory Spec2Isabelle
  imports Main
begin

unbundle bit_operations_syntax

section \<open>Python values\<close>

text \<open>
  A Python \<open>str\<close> is a sequence of Unicode code points and a \<open>bytes\<close> object a sequence
  of values below 256; both are lists of naturals here. \<open>py\<close> writes a literal, \<open>ch\<close> one
  character of it.
\<close>

type_synonym pystr = "nat list"
type_synonym pybytes = "nat list"

abbreviation ch :: "char \<Rightarrow> nat" where
  "ch c \<equiv> of_char c"

definition py :: "string \<Rightarrow> pystr" where
  "py s = map of_char s"

text \<open>
  The exceptions the module can raise. The two \<open>ValueError\<close>s of the bracket scan carry
  the position their message prints; \<open>ValueError\<close> alone is the one of \<open>bytes.fromhex\<close>
  and \<open>chr\<close>.
\<close>

datatype error =
    UnmatchedClose nat
  | UnmatchedOpen nat
  | UnicodeEncodeError
  | UnicodeDecodeError
  | ValueError
  | KeyError
  | IndexError

text \<open>\<open>xs[i]\<close>: a negative index counts from the end, an index out of range raises.\<close>

definition py_index :: "'a list \<Rightarrow> int \<Rightarrow> error + nat" where
  "py_index xs i =
     (if 0 \<le> i \<and> i < int (length xs) then Inr (nat i)
      else if - int (length xs) \<le> i \<and> i < 0 then Inr (nat (int (length xs) + i))
      else Inl IndexError)"

definition chr_py :: "int \<Rightarrow> error + nat" where
  "chr_py v = (if 0 \<le> v \<and> v \<le> 1114111 then Inr (nat v) else Inl ValueError)"

definition encode_ascii :: "pystr \<Rightarrow> error + pybytes" where
  "encode_ascii s = (if list_all (\<lambda>c. c < 128) s then Inr s else Inl UnicodeEncodeError)"

definition decode_ascii :: "pybytes \<Rightarrow> error + pystr" where
  "decode_ascii bs = (if list_all (\<lambda>b. b < 128) bs then Inr bs else Inl UnicodeDecodeError)"

definition encode_latin1 :: "pystr \<Rightarrow> error + pybytes" where
  "encode_latin1 s = (if list_all (\<lambda>c. c < 256) s then Inr s else Inl UnicodeEncodeError)"

text \<open>\<open>bytes.hex()\<close>: two lowercase digits per byte.\<close>

definition hex_digit :: "nat \<Rightarrow> nat" where
  "hex_digit n = ch (''0123456789abcdef'' ! n)"

definition bytes_hex :: "pybytes \<Rightarrow> pystr" where
  "bytes_hex bs = concat (map (\<lambda>b. [hex_digit (b div 16), hex_digit (b mod 16)]) bs)"

text \<open>
  \<open>bytes.fromhex(s)\<close>, as CPython reads it: ASCII whitespace before a pair of digits (and
  at the end) is skipped; then two hexadecimal digits of either case make one byte;
  anything else, a lone last digit included, raises \<open>ValueError\<close>.
\<close>

definition is_space :: "nat \<Rightarrow> bool" where
  "is_space c = (c = 32 \<or> (9 \<le> c \<and> c \<le> 13))"

definition digit_value :: "nat \<Rightarrow> nat option" where
  "digit_value c =
     (if ch CHR ''0'' \<le> c \<and> c \<le> ch CHR ''9'' then Some (c - ch CHR ''0'')
      else if ch CHR ''a'' \<le> c \<and> c \<le> ch CHR ''f'' then Some (c - ch CHR ''a'' + 10)
      else if ch CHR ''A'' \<le> c \<and> c \<le> ch CHR ''F'' then Some (c - ch CHR ''A'' + 10)
      else None)"

fun bytes_fromhex :: "pystr \<Rightarrow> error + pybytes" where
  "bytes_fromhex [] = Inr []"
| "bytes_fromhex (c # cs) =
     (if is_space c then bytes_fromhex cs
      else case digit_value c of
        None \<Rightarrow> Inl ValueError
      | Some hi \<Rightarrow>
          (case cs of
             [] \<Rightarrow> Inl ValueError
           | d # ds \<Rightarrow>
               (case digit_value d of
                  None \<Rightarrow> Inl ValueError
                | Some lo \<Rightarrow>
                    (case bytes_fromhex ds of
                       Inl e \<Rightarrow> Inl e
                     | Inr bs \<Rightarrow> Inr ((hi * 16 + lo) # bs)))))"

section \<open>The module\<close>

definition BF_COMMANDS :: "nat set" where
  "BF_COMMANDS = set (py ''+-<>[].,'')"

subsection \<open>\<open>text_to_brainfuck\<close>\<close>

text \<open>
  The \<open>for\<close> loop over \<open>text\<close>, with its two variables: \<open>code\<close>, the list of pieces, and
  \<open>curr\<close> (here \<open>cur\<close>). \<open>"+" * delta\<close> is \<open>replicate\<close>.
\<close>

fun text_to_brainfuck_loop :: "pystr \<Rightarrow> pystr list \<Rightarrow> int \<Rightarrow> pystr list" where
  "text_to_brainfuck_loop [] code cur = code"
| "text_to_brainfuck_loop (c # text) code cur =
     (let target = int c;
          delta = target - cur;
          code1 = (if delta > 0 then code @ [replicate (nat delta) (ch CHR ''+'')]
                   else if delta < 0 then code @ [replicate (nat (- delta)) (ch CHR ''-'')]
                   else code)
      in text_to_brainfuck_loop text (code1 @ [[ch CHR ''.'']]) target)"

definition text_to_brainfuck :: "pystr \<Rightarrow> pystr" where
  "text_to_brainfuck text = concat (text_to_brainfuck_loop text [] 0)"

subsection \<open>\<open>brainfuck_to_hex\<close> and \<open>hex_to_brainfuck\<close>\<close>

definition brainfuck_to_hex :: "pystr \<Rightarrow> error + pystr" where
  "brainfuck_to_hex bf_code =
     (case encode_ascii bf_code of Inl e \<Rightarrow> Inl e | Inr bs \<Rightarrow> Inr (bytes_hex bs))"

definition hex_to_brainfuck :: "pystr \<Rightarrow> error + pystr" where
  "hex_to_brainfuck hex_str =
     (case bytes_fromhex hex_str of Inl e \<Rightarrow> Inl e | Inr bs \<Rightarrow> decode_ascii bs)"

subsection \<open>\<open>run_brainfuck\<close>\<close>

text \<open>
  The bracket scan, \<open>for i, c in enumerate(filtered)\<close>: \<open>stack.append\<close> adds at the end,
  \<open>stack.pop()\<close> takes the last element.
\<close>

fun scan_brackets ::
  "pystr \<Rightarrow> nat \<Rightarrow> (nat \<rightharpoonup> nat) \<Rightarrow> nat list \<Rightarrow> error + ((nat \<rightharpoonup> nat) \<times> nat list)" where
  "scan_brackets [] i jumps stack = Inr (jumps, stack)"
| "scan_brackets (c # cs) i jumps stack =
     (if c = ch CHR ''[''
      then scan_brackets cs (i + 1) jumps (stack @ [i])
      else if c = ch CHR '']''
      then (if stack = [] then Inl (UnmatchedClose i)
            else (let j = last stack
                  in scan_brackets cs (i + 1) (jumps(i \<mapsto> j, j \<mapsto> i)) (butlast stack)))
      else scan_brackets cs (i + 1) jumps stack)"

record state =
  tape :: "int list"
  ptr :: int
  pc :: nat
  out_chars :: pystr
  in_buf :: "int list"

text \<open>One pass through the body of the \<open>while\<close> loop, \<open>pc += 1\<close> included.\<close>

definition step :: "pystr \<Rightarrow> (nat \<rightharpoonup> nat) \<Rightarrow> state \<Rightarrow> error + state" where
  "step filtered jumps st =
     (let c = filtered ! pc st in
      if c = ch CHR ''>'' then
        (let p = ptr st + 1
         in Inr (st\<lparr>ptr := p,
                    tape := (if p = int (length (tape st)) then tape st @ [0] else tape st),
                    pc := pc st + 1\<rparr>))
      else if c = ch CHR ''<'' then
        (if ptr st = 0 then Inr (st\<lparr>tape := 0 # tape st, pc := pc st + 1\<rparr>)
         else Inr (st\<lparr>ptr := ptr st - 1, pc := pc st + 1\<rparr>))
      else if c = ch CHR ''+'' then
        (case py_index (tape st) (ptr st) of
           Inl e \<Rightarrow> Inl e
         | Inr k \<Rightarrow> Inr (st\<lparr>tape := (tape st)[k := (tape st ! k + 1) AND 255],
                            pc := pc st + 1\<rparr>))
      else if c = ch CHR ''-'' then
        (case py_index (tape st) (ptr st) of
           Inl e \<Rightarrow> Inl e
         | Inr k \<Rightarrow> Inr (st\<lparr>tape := (tape st)[k := (tape st ! k - 1) AND 255],
                            pc := pc st + 1\<rparr>))
      else if c = ch CHR ''.'' then
        (case py_index (tape st) (ptr st) of
           Inl e \<Rightarrow> Inl e
         | Inr k \<Rightarrow>
             (case chr_py (tape st ! k) of
                Inl e \<Rightarrow> Inl e
              | Inr x \<Rightarrow> Inr (st\<lparr>out_chars := out_chars st @ [x], pc := pc st + 1\<rparr>)))
      else if c = ch CHR '','' then
        (case in_buf st of
           [] \<Rightarrow>
             (case py_index (tape st) (ptr st) of
                Inl e \<Rightarrow> Inl e
              | Inr k \<Rightarrow> Inr (st\<lparr>tape := (tape st)[k := 0], pc := pc st + 1\<rparr>))
         | b # bs \<Rightarrow>
             (case py_index (tape st) (ptr st) of
                Inl e \<Rightarrow> Inl e
              | Inr k \<Rightarrow> Inr (st\<lparr>tape := (tape st)[k := b], in_buf := bs,
                                 pc := pc st + 1\<rparr>)))
      else if c = ch CHR ''['' then
        (case py_index (tape st) (ptr st) of
           Inl e \<Rightarrow> Inl e
         | Inr k \<Rightarrow>
             if tape st ! k = 0
             then (case jumps (pc st) of
                     None \<Rightarrow> Inl KeyError
                   | Some t \<Rightarrow> Inr (st\<lparr>pc := t + 1\<rparr>))
             else Inr (st\<lparr>pc := pc st + 1\<rparr>))
      else if c = ch CHR '']'' then
        (case py_index (tape st) (ptr st) of
           Inl e \<Rightarrow> Inl e
         | Inr k \<Rightarrow>
             if tape st ! k \<noteq> 0
             then (case jumps (pc st) of
                     None \<Rightarrow> Inl KeyError
                   | Some t \<Rightarrow> Inr (st\<lparr>pc := t + 1\<rparr>))
             else Inr (st\<lparr>pc := pc st + 1\<rparr>))
      else Inr (st\<lparr>pc := pc st + 1\<rparr>))"

text \<open>The \<open>while\<close> loop. It need not end: \<open>None\<close> is the run that never returns.\<close>

partial_function (option) exec_loop ::
  "pystr \<Rightarrow> (nat \<rightharpoonup> nat) \<Rightarrow> state \<Rightarrow> (error + state) option" where
  "exec_loop filtered jumps st =
     (if pc st < length filtered
      then (case step filtered jumps st of
              Inl e \<Rightarrow> Some (Inl e)
            | Inr st' \<Rightarrow> exec_loop filtered jumps st')
      else Some (Inr st))"

declare exec_loop.simps [code]

definition init_state :: "int list \<Rightarrow> state" where
  "init_state buf = \<lparr>tape = [0], ptr = 0, pc = 0, out_chars = [], in_buf = buf\<rparr>"

definition run_brainfuck :: "pystr \<Rightarrow> pystr \<Rightarrow> (error + pystr) option" where
  "run_brainfuck code inp =
     (let filtered = filter (\<lambda>c. c \<in> BF_COMMANDS) code in
      case scan_brackets filtered 0 Map.empty [] of
        Inl e \<Rightarrow> Some (Inl e)
      | Inr (jumps, stack) \<Rightarrow>
          if stack \<noteq> [] then Some (Inl (UnmatchedOpen (last stack)))
          else (case encode_latin1 inp of
                  Inl e \<Rightarrow> Some (Inl e)
                | Inr bs \<Rightarrow>
                    (case exec_loop filtered jumps (init_state (map int bs)) of
                       None \<Rightarrow> None
                     | Some (Inl e) \<Rightarrow> Some (Inl e)
                     | Some (Inr st) \<Rightarrow> Some (Inr (out_chars st)))))"

subsection \<open>\<open>encode_to_hex\<close> and \<open>decode_from_hex\<close>\<close>

definition encode_to_hex :: "pystr \<Rightarrow> error + pystr" where
  "encode_to_hex text = brainfuck_to_hex (text_to_brainfuck text)"

definition decode_from_hex :: "pystr \<Rightarrow> (error + pystr) option" where
  "decode_from_hex hex_str =
     (case hex_to_brainfuck hex_str of
        Inl e \<Rightarrow> Some (Inl e)
      | Inr bf \<Rightarrow> run_brainfuck bf [])"

section \<open>Execution prefixes\<close>

text \<open>
  \<open>steps n\<close> is the state after the first \<open>n\<close> passes of the loop (fewer when the loop has
  ended before): what the machine looks like after every execution step.
\<close>

fun steps :: "nat \<Rightarrow> pystr \<Rightarrow> (nat \<rightharpoonup> nat) \<Rightarrow> state \<Rightarrow> error + state" where
  "steps 0 filtered jumps st = Inr st"
| "steps (Suc n) filtered jumps st =
     (if pc st < length filtered
      then (case step filtered jumps st of
              Inl e \<Rightarrow> Inl e
            | Inr st' \<Rightarrow> steps n filtered jumps st')
      else Inr st)"

text \<open>A result at which the loop has stopped: an exception, or \<open>pc\<close> past the end.\<close>

definition final :: "pystr \<Rightarrow> error + state \<Rightarrow> bool" where
  "final filtered r = (case r of Inl e \<Rightarrow> True | Inr st \<Rightarrow> \<not> pc st < length filtered)"

section \<open>Invariants of the machine\<close>

text \<open>
  A cell is a byte; the pointer is an index of the tape; the jump table has an entry for
  every bracket of the program.
\<close>

definition cell_ok :: "int \<Rightarrow> bool" where
  "cell_ok v = (0 \<le> v \<and> v \<le> 255)"

definition ptr_valid :: "state \<Rightarrow> bool" where
  "ptr_valid st = (0 \<le> ptr st \<and> ptr st < int (length (tape st)))"

definition machine_inv :: "state \<Rightarrow> bool" where
  "machine_inv st = (ptr_valid st \<and> list_all cell_ok (tape st) \<and> list_all cell_ok (in_buf st))"

definition jumps_complete :: "pystr \<Rightarrow> (nat \<rightharpoonup> nat) \<Rightarrow> bool" where
  "jumps_complete filtered jumps =
     (\<forall>p < length filtered.
        filtered ! p = ch CHR ''['' \<or> filtered ! p = ch CHR '']'' \<longrightarrow> jumps p \<noteq> None)"

section \<open>Hexadecimal strings\<close>

text \<open>
  What the transcoder claims speak of. \<open>is_hex_digit\<close> is a character of \<open>[0-9a-fA-F]\<close>;
  \<open>byte_values\<close> reads a string two characters at a time; \<open>lower\<close> is \<open>str.lower()\<close> on
  ASCII strings. \<open>hex_layout\<close> writes digit pairs, each after a run of characters, and a last
  run; the layout is well laid when the runs are whitespace and the pairs are digits.
\<close>

definition is_hex_digit :: "nat \<Rightarrow> bool" where
  "is_hex_digit c = (digit_value c \<noteq> None)"

fun byte_values :: "pystr \<Rightarrow> pybytes" where
  "byte_values (a # b # cs) = (the (digit_value a) * 16 + the (digit_value b)) # byte_values cs"
| "byte_values cs = []"

definition ascii_lower :: "nat \<Rightarrow> nat" where
  "ascii_lower c = (if ch CHR ''A'' \<le> c \<and> c \<le> ch CHR ''Z'' then c + 32 else c)"

definition lower :: "pystr \<Rightarrow> pystr" where
  "lower s = map ascii_lower s"

fun hex_layout :: "(pystr \<times> nat \<times> nat) list \<Rightarrow> pystr \<Rightarrow> pystr" where
  "hex_layout [] w = w"
| "hex_layout ((ws, a, b) # ts) w = ws @ a # b # hex_layout ts w"

definition well_laid :: "(pystr \<times> nat \<times> nat) list \<Rightarrow> pystr \<Rightarrow> bool" where
  "well_laid ts w =
     (list_all (\<lambda>(ws, a, b). list_all is_space ws \<and> is_hex_digit a \<and> is_hex_digit b) ts
      \<and> list_all is_space w)"

definition layout_bytes :: "(pystr \<times> nat \<times> nat) list \<Rightarrow> pybytes" where
  "layout_bytes ts = map (\<lambda>(ws, a, b). the (digit_value a) * 16 + the (digit_value b)) ts"

section \<open>Generated programs\<close>

text \<open>
  The text of the program \<open>text_to_brainfuck\<close> builds, piece by piece: \<open>delta_code\<close> is
  what one pass of its loop appends before the \<open>.\<close>, \<open>emitted\<close> what the remaining passes
  append.
\<close>

definition delta_code :: "int \<Rightarrow> int \<Rightarrow> pystr" where
  "delta_code cur target =
     (if target - cur > 0 then replicate (nat (target - cur)) (ch CHR ''+'')
      else if target - cur < 0 then replicate (nat (- (target - cur))) (ch CHR ''-'')
      else [])"

fun emitted :: "int \<Rightarrow> pystr \<Rightarrow> pystr" where
  "emitted cur [] = []"
| "emitted cur (c # text) = delta_code cur (int c) @ ch CHR ''.'' # emitted (int c) text"

section \<open>Lemmas\<close>

lemma and_255: "(x::int) AND 255 = x mod 256"
proof -
  have "x AND mask 8 = x mod 2 ^ 8" by (simp only: take_bit_eq_mask [symmetric] take_bit_eq_mod)
  then show ?thesis by (simp add: mask_eq_exp_minus_1)
qed

lemma exec_loop_steps:
  assumes "exec_loop filtered jumps st = Some r"
  shows "\<exists>n. steps n filtered jumps st = r \<and> final filtered r"
  using assms
proof (induction rule: exec_loop.raw_induct [rotated 1, consumes 1])
  case (1 exec_loop' filtered jumps st r)
  show ?case
  proof (cases "pc st < length filtered")
    case False
    with 1(2) have "r = Inr st" by simp
    with False have "steps 0 filtered jumps st = r \<and> final filtered r"
      by (simp add: final_def)
    then show ?thesis by blast
  next
    case True
    show ?thesis
    proof (cases "step filtered jumps st")
      case (Inl e)
      with True 1(2) have "r = Inl e" by simp
      with True Inl have "steps (Suc 0) filtered jumps st = r \<and> final filtered r"
        by (simp add: final_def)
      then show ?thesis by blast
    next
      case (Inr st')
      with True 1(2) have eq: "exec_loop' filtered jumps st' = Some r" by simp
      note IH = 1(1)
      from IH [OF eq] obtain n where "steps n filtered jumps st' = r \<and> final filtered r"
        by blast
      with True Inr have "steps (Suc n) filtered jumps st = r \<and> final filtered r" by simp
      then show ?thesis by blast
    qed
  qed
qed

lemma steps_exec_loop:
  "steps n filtered jumps st = r \<Longrightarrow> final filtered r \<Longrightarrow> exec_loop filtered jumps st = Some r"
proof (induction n arbitrary: st)
  case 0
  then show ?case by (subst exec_loop.simps) (auto simp: final_def)
next
  case (Suc n)
  then show ?case
    by (subst exec_loop.simps) (auto simp: final_def split: sum.splits if_splits)
qed

lemma cell_ok_and: "cell_ok (x AND 255)"
  by (simp add: cell_ok_def and_255)

lemma py_index_valid: "ptr_valid st \<Longrightarrow> py_index (tape st) (ptr st) = Inr (nat (ptr st))"
  by (simp add: ptr_valid_def py_index_def)

lemma chr_py_cell: "cell_ok v \<Longrightarrow> chr_py v = Inr (nat v)"
  by (simp add: cell_ok_def chr_py_def)

lemma list_all_update: "list_all P xs \<Longrightarrow> P v \<Longrightarrow> list_all P (xs[k := v])"
  by (induction xs arbitrary: k) (auto split: nat.splits)

lemma step_inv:
  assumes inv: "machine_inv st" and pc: "pc st < length filtered"
    and jc: "jumps_complete filtered jumps"
  shows "\<exists>st'. step filtered jumps st = Inr st' \<and> machine_inv st'"
proof -
  from inv have pv: "ptr_valid st" and ct: "list_all cell_ok (tape st)"
    and cb: "list_all cell_ok (in_buf st)"
    by (simp_all add: machine_inv_def)
  note ix = py_index_valid [OF pv]
  from pv have "nat (ptr st) < length (tape st)"
    by (simp add: ptr_valid_def nat_less_iff)
  with ct have cur: "cell_ok (tape st ! nat (ptr st))"
    by (simp add: list_all_length)
  note ch = chr_py_cell [OF cur]
  consider (gt) "filtered ! pc st = ch CHR ''>''" | (lt) "filtered ! pc st = ch CHR ''<''"
    | (plus) "filtered ! pc st = ch CHR ''+''" | (minus) "filtered ! pc st = ch CHR ''-''"
    | (dot) "filtered ! pc st = ch CHR ''.''" | (comma) "filtered ! pc st = ch CHR '',''"
    | (lb) "filtered ! pc st = ch CHR ''[''" | (rb) "filtered ! pc st = ch CHR '']''"
    | (other) "filtered ! pc st \<notin> BF_COMMANDS"
    by (auto simp: BF_COMMANDS_def py_def)
  then show ?thesis
  proof cases
    case gt
    with pv ct cb show ?thesis
      by (auto simp: step_def Let_def machine_inv_def ptr_valid_def cell_ok_def)
  next
    case lt
    with pv ct cb show ?thesis
      by (auto simp: step_def Let_def machine_inv_def ptr_valid_def cell_ok_def)
  next
    case plus
    with pv ct cb ix show ?thesis
      by (auto simp: step_def Let_def machine_inv_def ptr_valid_def cell_ok_and list_all_update)
  next
    case minus
    with pv ct cb ix show ?thesis
      by (auto simp: step_def Let_def machine_inv_def ptr_valid_def cell_ok_and list_all_update)
  next
    case dot
    with pv ct cb ix ch show ?thesis
      by (auto simp: step_def Let_def machine_inv_def ptr_valid_def)
  next
    case comma
    with pv ct cb ix show ?thesis
      by (cases "in_buf st")
        (auto simp: step_def Let_def machine_inv_def ptr_valid_def list_all_update cell_ok_def)
  next
    case lb
    with jc pc obtain t where "jumps (pc st) = Some t"
      by (auto simp: jumps_complete_def)
    with lb pv ct cb ix show ?thesis
      by (auto simp: step_def Let_def machine_inv_def ptr_valid_def)
  next
    case rb
    with jc pc obtain t where "jumps (pc st) = Some t"
      by (auto simp: jumps_complete_def)
    with rb pv ct cb ix show ?thesis
      by (auto simp: step_def Let_def machine_inv_def ptr_valid_def)
  next
    case other
    then have "step filtered jumps st = Inr (st\<lparr>pc := pc st + 1\<rparr>)"
      by (simp add: step_def Let_def BF_COMMANDS_def py_def)
    with pv ct cb show ?thesis
      by (auto simp: machine_inv_def ptr_valid_def)
  qed
qed

lemma steps_inv:
  "machine_inv st \<Longrightarrow> jumps_complete filtered jumps \<Longrightarrow>
   \<exists>st'. steps n filtered jumps st = Inr st' \<and> machine_inv st'"
proof (induction n arbitrary: st)
  case 0
  then show ?case by simp
next
  case (Suc n)
  show ?case
  proof (cases "pc st < length filtered")
    case False
    with Suc.prems show ?thesis by simp
  next
    case True
    from step_inv [OF Suc.prems(1) True Suc.prems(2)]
    obtain st1 where s1: "step filtered jumps st = Inr st1" and i1: "machine_inv st1" by blast
    from Suc.IH [OF i1 Suc.prems(2)] True s1 show ?thesis by simp
  qed
qed

lemma scan_brackets_dom:
  "scan_brackets cs i jumps stack = Inr (jumps', stack') \<Longrightarrow>
   dom jumps \<union> set stack \<subseteq> dom jumps' \<union> set stack' \<and>
   (\<forall>k < length cs. cs ! k = ch CHR ''['' \<or> cs ! k = ch CHR '']''
      \<longrightarrow> i + k \<in> dom jumps' \<union> set stack')"
proof (induction cs arbitrary: i jumps stack)
  case Nil
  then show ?case by simp
next
  case (Cons c cs)
  let ?B = "\<lambda>x. x = ch CHR ''['' \<or> x = ch CHR '']''"
  have rest: "\<exists>j s. scan_brackets cs (Suc i) j s = Inr (jumps', stack')
      \<and> dom jumps \<union> set stack \<union> (if ?B c then {i} else {}) \<subseteq> dom j \<union> set s"
  proof (cases "c = ch CHR ''[''")
    case True
    with Cons.prems have "scan_brackets cs (Suc i) jumps (stack @ [i]) = Inr (jumps', stack')"
      by simp
    moreover have "dom jumps \<union> set stack \<union> (if ?B c then {i} else {})
        \<subseteq> dom jumps \<union> set (stack @ [i])"
      by auto
    ultimately show ?thesis by blast
  next
    case False
    note nlb = this
    show ?thesis
    proof (cases "c = ch CHR '']''")
      case True
      with Cons.prems have ne: "stack \<noteq> []" by (auto split: if_splits)
      with True Cons.prems
      have sc: "scan_brackets cs (Suc i) (jumps(i \<mapsto> last stack, last stack \<mapsto> i)) (butlast stack)
              = Inr (jumps', stack')"
        by (simp add: Let_def)
      have "set (butlast stack @ [last stack]) = insert (last stack) (set (butlast stack))"
        by (simp del: append_butlast_last_id)
      with append_butlast_last_id [OF ne]
      have "set stack = insert (last stack) (set (butlast stack))" by simp
      moreover have "dom (jumps(i \<mapsto> last stack, last stack \<mapsto> i))
          = insert i (insert (last stack) (dom jumps))"
        by auto
      ultimately have "dom jumps \<union> set stack \<union> (if ?B c then {i} else {})
          \<subseteq> dom (jumps(i \<mapsto> last stack, last stack \<mapsto> i)) \<union> set (butlast stack)"
        by (simp only:) auto
      with sc show ?thesis by blast
    next
      case False
      with nlb Cons.prems have "scan_brackets cs (Suc i) jumps stack = Inr (jumps', stack')"
        by simp
      moreover from nlb False have "dom jumps \<union> set stack \<union> (if ?B c then {i} else {})
          \<subseteq> dom jumps \<union> set stack"
        by auto
      ultimately show ?thesis by blast
    qed
  qed
  then obtain j s where sc: "scan_brackets cs (Suc i) j s = Inr (jumps', stack')"
    and sub: "dom jumps \<union> set stack \<union> (if ?B c then {i} else {}) \<subseteq> dom j \<union> set s"
    by blast
  from Cons.IH [OF sc] have mono: "dom j \<union> set s \<subseteq> dom jumps' \<union> set stack'"
    and later: "\<And>k. k < length cs \<Longrightarrow> ?B (cs ! k) \<Longrightarrow> Suc i + k \<in> dom jumps' \<union> set stack'"
    by blast+
  have "i + k \<in> dom jumps' \<union> set stack'" if "k < length (c # cs)" "?B ((c # cs) ! k)" for k
  proof (cases k)
    case 0
    with that sub mono show ?thesis by auto
  next
    case (Suc k')
    with that later [of k'] show ?thesis by simp
  qed
  with sub mono show ?case by blast
qed

lemma scan_brackets_complete:
  assumes "scan_brackets filtered 0 Map.empty [] = Inr (jumps, [])"
  shows "jumps_complete filtered jumps"
  using scan_brackets_dom [OF assms] by (auto simp: jumps_complete_def)

lemma init_inv: "list_all cell_ok buf \<Longrightarrow> machine_inv (init_state buf)"
  by (simp add: machine_inv_def init_state_def ptr_valid_def cell_ok_def)

lemma latin1_cells: "encode_latin1 inp = Inr bs \<Longrightarrow> list_all cell_ok (map int bs)"
  by (auto simp: encode_latin1_def cell_ok_def list_all_iff split: if_splits)

lemma exec_loop_no_error:
  assumes "machine_inv st" and "jumps_complete filtered jumps"
  shows "exec_loop filtered jumps st \<noteq> Some (Inl e)"
proof
  assume "exec_loop filtered jumps st = Some (Inl e)"
  from exec_loop_steps [OF this] obtain n where "steps n filtered jumps st = Inl e" by blast
  with steps_inv [OF assms, of n] show False by auto
qed

lemma run_brainfuck_scan_error:
  "scan_brackets (filter (\<lambda>c. c \<in> BF_COMMANDS) code) 0 Map.empty [] = Inl e \<Longrightarrow>
   run_brainfuck code inp = Some (Inl e)"
  by (simp add: run_brainfuck_def)

lemma run_brainfuck_pending:
  "scan_brackets (filter (\<lambda>c. c \<in> BF_COMMANDS) code) 0 Map.empty [] = Inr (jumps, stack) \<Longrightarrow>
   stack \<noteq> [] \<Longrightarrow> run_brainfuck code inp = Some (Inl (UnmatchedOpen (last stack)))"
  by (simp add: run_brainfuck_def)

lemma run_brainfuck_exec:
  "scan_brackets (filter (\<lambda>c. c \<in> BF_COMMANDS) code) 0 Map.empty [] = Inr (jumps, []) \<Longrightarrow>
   encode_latin1 inp = Inr bs \<Longrightarrow>
   run_brainfuck code inp =
     (case exec_loop (filter (\<lambda>c. c \<in> BF_COMMANDS) code) jumps (init_state (map int bs)) of
        None \<Rightarrow> None
      | Some (Inl e) \<Rightarrow> Some (Inl e)
      | Some (Inr st) \<Rightarrow> Some (Inr (out_chars st)))"
  by (simp add: run_brainfuck_def)

lemma run_brainfuck_failure_cases:
  assumes "run_brainfuck code inp = Some (Inl e)"
  shows "scan_brackets (filter (\<lambda>c. c \<in> BF_COMMANDS) code) 0 Map.empty [] = Inl e
     \<or> (\<exists>jumps stack. scan_brackets (filter (\<lambda>c. c \<in> BF_COMMANDS) code) 0 Map.empty []
            = Inr (jumps, stack) \<and> stack \<noteq> [] \<and> e = UnmatchedOpen (last stack))
     \<or> (encode_latin1 inp = Inl e \<and> e = UnicodeEncodeError)"
proof (cases "scan_brackets (filter (\<lambda>c. c \<in> BF_COMMANDS) code) 0 Map.empty []")
  case (Inl e')
  with assms show ?thesis by (simp add: run_brainfuck_def)
next
  case (Inr r)
  obtain jumps stack where r: "r = (jumps, stack)" by (cases r)
  show ?thesis
  proof (cases "stack = []")
    case False
    with assms Inr r show ?thesis by (simp add: run_brainfuck_def)
  next
    case True
    note sc = Inr [unfolded r True]
    show ?thesis
    proof (cases "encode_latin1 inp")
      case (Inl e')
      with assms sc show ?thesis
        by (auto simp: run_brainfuck_def encode_latin1_def split: if_splits)
    next
      case (Inr bs)
      from exec_loop_no_error [OF init_inv [OF latin1_cells [OF Inr]] scan_brackets_complete [OF sc]]
      have "exec_loop (filter (\<lambda>c. c \<in> BF_COMMANDS) code) jumps (init_state (map int bs)) \<noteq> Some (Inl e)" .
      with assms run_brainfuck_exec [OF sc Inr] show ?thesis
        by (auto split: option.splits sum.splits)
    qed
  qed
qed

lemma scan_brackets_stack:
  "scan_brackets cs (length pre) jumps stack = Inr (jumps', stack') \<Longrightarrow>
   sorted_wrt (<) stack \<Longrightarrow>
   (\<forall>p\<in>set stack. p < length pre \<and> pre ! p = ch CHR ''['') \<Longrightarrow>
   sorted_wrt (<) stack' \<and>
   (\<forall>p\<in>set stack'. p < length (pre @ cs) \<and> (pre @ cs) ! p = ch CHR ''['')"
proof (induction cs arbitrary: pre jumps stack)
  case Nil
  then show ?case by simp
next
  case (Cons c cs)
  have len: "length (pre @ [c]) = Suc (length pre)" by simp
  have app: "(pre @ [c]) @ cs = pre @ c # cs" by simp
  have keep: "p < length (pre @ [c]) \<and> (pre @ [c]) ! p = ch CHR ''[''"
    if "p \<in> set stack" for p
    using that Cons.prems(3) by (auto simp: nth_append)
  show ?case
  proof (cases "c = ch CHR ''[''")
    case True
    with Cons.prems have sc:
      "scan_brackets cs (length (pre @ [c])) jumps (stack @ [length pre]) = Inr (jumps', stack')"
      by simp
    from Cons.prems have srt: "sorted_wrt (<) (stack @ [length pre])"
      by (auto simp: sorted_wrt_append)
    from keep True
    have pos: "\<forall>p\<in>set (stack @ [length pre]). p < length (pre @ [c]) \<and> (pre @ [c]) ! p = ch CHR ''[''"
      by auto
    from Cons.IH [OF sc srt pos, unfolded app] show ?thesis .
  next
    case False
    note nlb = this
    show ?thesis
    proof (cases "c = ch CHR '']''")
      case True
      with Cons.prems have ne: "stack \<noteq> []" by (auto split: if_splits)
      with True Cons.prems have sc:
        "scan_brackets cs (length (pre @ [c])) (jumps(length pre \<mapsto> last stack, last stack \<mapsto> length pre))
           (butlast stack) = Inr (jumps', stack')"
        by (simp add: Let_def)
      from Cons.prems(2) append_butlast_last_id [OF ne]
      have srt: "sorted_wrt (<) (butlast stack)"
        by (metis sorted_wrt_append)
      from keep have pos:
        "\<forall>p\<in>set (butlast stack). p < length (pre @ [c]) \<and> (pre @ [c]) ! p = ch CHR ''[''"
        by (blast dest: in_set_butlastD)
      from Cons.IH [OF sc srt pos, unfolded app] show ?thesis .
    next
      case False
      with nlb Cons.prems have sc:
        "scan_brackets cs (length (pre @ [c])) jumps stack = Inr (jumps', stack')"
        by simp
      from keep have pos: "\<forall>p\<in>set stack. p < length (pre @ [c]) \<and> (pre @ [c]) ! p = ch CHR ''[''"
        by blast
      from Cons.IH [OF sc Cons.prems(2) pos, unfolded app] show ?thesis .
    qed
  qed
qed

lemma sorted_wrt_less_last: "sorted_wrt (<) (xs::nat list) \<Longrightarrow> p \<in> set xs \<Longrightarrow> p \<le> last xs"
  by (induction xs) (auto simp: less_imp_le)

lemma step_plus:
  "ptr_valid st \<Longrightarrow> filtered ! pc st = ch CHR ''+'' \<Longrightarrow>
   step filtered jumps st =
     Inr (st\<lparr>tape := (tape st)[nat (ptr st) := (tape st ! nat (ptr st) + 1) mod 256],
            pc := pc st + 1\<rparr>)"
  by (simp add: step_def py_index_valid and_255)

lemma step_minus:
  "ptr_valid st \<Longrightarrow> filtered ! pc st = ch CHR ''-'' \<Longrightarrow>
   step filtered jumps st =
     Inr (st\<lparr>tape := (tape st)[nat (ptr st) := (tape st ! nat (ptr st) - 1) mod 256],
            pc := pc st + 1\<rparr>)"
  by (simp add: step_def py_index_valid and_255)

lemma step_gt:
  "filtered ! pc st = ch CHR ''>'' \<Longrightarrow>
   step filtered jumps st =
     Inr (st\<lparr>ptr := ptr st + 1,
            tape := (if ptr st + 1 = int (length (tape st)) then tape st @ [0] else tape st),
            pc := pc st + 1\<rparr>)"
  by (simp add: step_def Let_def)

lemma step_comma:
  "ptr_valid st \<Longrightarrow> filtered ! pc st = ch CHR '','' \<Longrightarrow>
   step filtered jumps st =
     Inr (st\<lparr>tape := (tape st)[nat (ptr st) := (case in_buf st of [] \<Rightarrow> 0 | b # bs \<Rightarrow> b)],
            in_buf := tl (in_buf st), pc := pc st + 1\<rparr>)"
  by (cases "in_buf st") (simp_all add: step_def py_index_valid)

lemma step_dot:
  "ptr_valid st \<Longrightarrow> cell_ok (tape st ! nat (ptr st)) \<Longrightarrow> filtered ! pc st = ch CHR ''.'' \<Longrightarrow>
   step filtered jumps st =
     Inr (st\<lparr>out_chars := out_chars st @ [nat (tape st ! nat (ptr st))], pc := pc st + 1\<rparr>)"
  by (simp add: step_def py_index_valid chr_py_cell)

lemma steps_validated:
  assumes "scan_brackets (filter (\<lambda>c. c \<in> BF_COMMANDS) code) 0 Map.empty [] = Inr (jumps, [])"
    and "encode_latin1 inp = Inr bs"
  shows "\<exists>st. steps n (filter (\<lambda>c. c \<in> BF_COMMANDS) code) jumps (init_state (map int bs)) = Inr st
           \<and> machine_inv st"
  by (rule steps_inv [OF init_inv [OF latin1_cells [OF assms(2)]] scan_brackets_complete [OF assms(1)]])

lemma exec_loop_next:
  "pc st < length filtered \<Longrightarrow> step filtered jumps st = Inr st' \<Longrightarrow>
   exec_loop filtered jumps st = exec_loop filtered jumps st'"
  by (subst exec_loop.simps) simp

lemma exec_loop_halt:
  "\<not> pc st < length filtered \<Longrightarrow> exec_loop filtered jumps st = Some (Inr st)"
  by (subst exec_loop.simps) simp

lemma scan_no_brackets:
  "ch CHR ''['' \<notin> set cs \<Longrightarrow> ch CHR '']'' \<notin> set cs \<Longrightarrow>
   scan_brackets cs i jumps stack = Inr (jumps, stack)"
  by (induction cs arbitrary: i) auto

lemma filter_commands_id:
  "set cs \<subseteq> BF_COMMANDS \<Longrightarrow> filter (\<lambda>c. c \<in> BF_COMMANDS) cs = cs"
  by (induction cs) auto

lemma nth_pairs:
  "k < n \<Longrightarrow> concat (replicate n [a, b]) ! (2 * k) = a \<and> concat (replicate n [a, b]) ! Suc (2 * k) = b"
proof (induction n arbitrary: k)
  case 0
  then show ?case by simp
next
  case (Suc n)
  show ?case
  proof (cases k)
    case 0
    then show ?thesis by simp
  next
    case (Suc k')
    with Suc.prems Suc.IH [of k'] show ?thesis by simp
  qed
qed

lemma length_pairs: "length (concat (replicate n [a, b])) = 2 * n"
  by (induction n) auto

lemma set_pairs: "set (concat (replicate n [a, b])) \<subseteq> {a, b}"
  by (induction n) auto

lemma take_pad: "take m (xs @ replicate (Suc m) z) = take m (xs @ replicate m z)"
proof -
  have "replicate (Suc m) z = replicate m z @ [z]" by (simp add: replicate_append_same)
  then have "xs @ replicate (Suc m) z = (xs @ replicate m z) @ [z]" by simp
  then show ?thesis by (simp del: replicate_Suc append_assoc)
qed

lemma exec_echo:
  "k + m = n \<Longrightarrow> list_all cell_ok buf \<Longrightarrow>
   \<exists>st'. exec_loop (concat (replicate n [ch CHR '','', ch CHR ''.''])) jumps
            \<lparr>tape = [v], ptr = 0, pc = 2 * k, out_chars = out, in_buf = buf\<rparr> = Some (Inr st')
        \<and> out_chars st' = out @ map nat (take m (buf @ replicate m 0))"
proof (induction m arbitrary: k v out buf)
  case 0
  then show ?case by (simp add: exec_loop_halt length_pairs)
next
  case (Suc m)
  let ?P = "concat (replicate n [ch CHR '','', ch CHR ''.''])"
  let ?s0 = "\<lparr>tape = [v], ptr = 0, pc = 2 * k, out_chars = out, in_buf = buf\<rparr>"
  define b where "b = (case buf of [] \<Rightarrow> 0 | x # xs \<Rightarrow> x)"
  let ?s1 = "\<lparr>tape = [b], ptr = 0, pc = Suc (2 * k), out_chars = out, in_buf = tl buf\<rparr>"
  let ?s2 = "\<lparr>tape = [b], ptr = 0, pc = 2 * Suc k, out_chars = out @ [nat b], in_buf = tl buf\<rparr>"
  from Suc.prems have kn: "k < n" by simp
  note nth = nth_pairs [OF kn, of "ch CHR '',''" "ch CHR ''.''"]
  from Suc.prems(2) have bok: "cell_ok b"
    by (cases buf) (simp_all add: b_def cell_ok_def)
  from Suc.prems(2) have tok: "list_all cell_ok (tl buf)"
    by (cases buf) simp_all
  have st1: "step ?P jumps ?s0 = Inr ?s1"
    using nth by (simp add: step_comma ptr_valid_def b_def)
  have st2: "step ?P jumps ?s1 = Inr ?s2"
    using nth bok by (simp add: step_dot ptr_valid_def)
  from kn have "exec_loop ?P jumps ?s0 = exec_loop ?P jumps ?s1"
    by (intro exec_loop_next st1) (simp add: length_pairs)
  also from kn have "\<dots> = exec_loop ?P jumps ?s2"
    by (intro exec_loop_next st2) (simp add: length_pairs)
  finally have eq: "exec_loop ?P jumps ?s0 = exec_loop ?P jumps ?s2" .
  from Suc.prems have "Suc k + m = n" by simp
  from Suc.IH [OF this tok, of b "out @ [nat b]"] obtain st' where
    r: "exec_loop ?P jumps ?s2 = Some (Inr st')"
    and o: "out_chars st' = (out @ [nat b]) @ map nat (take m (tl buf @ replicate m 0))"
    by blast
  have "take (Suc m) (buf @ replicate (Suc m) 0) = b # take m (tl buf @ replicate m 0)"
  proof (cases buf)
    case Nil
    then show ?thesis by (simp add: b_def)
  next
    case (Cons x xs)
    then show ?thesis by (simp add: b_def take_pad del: replicate_Suc)
  qed
  with o have "out_chars st' = out @ map nat (take (Suc m) (buf @ replicate (Suc m) 0))"
    by simp
  with eq r show ?case by simp
qed

lemma run_echo:
  assumes "list_all (\<lambda>c. c < 256) inp"
  shows "run_brainfuck (concat (replicate n (py '',.''))) inp = Some (Inr (take n (inp @ replicate n 0)))"
proof -
  let ?P = "concat (replicate n [ch CHR '','', ch CHR ''.''])"
  have P: "concat (replicate n (py '',.'')) = ?P" by (simp add: py_def)
  from set_pairs [of n "ch CHR '',''" "ch CHR ''.''"]
  have f: "filter (\<lambda>c. c \<in> BF_COMMANDS) ?P = ?P"
    and nb: "ch CHR ''['' \<notin> set ?P" "ch CHR '']'' \<notin> set ?P"
    by (auto intro!: filter_commands_id simp: BF_COMMANDS_def py_def)
  have sc: "scan_brackets (filter (\<lambda>c. c \<in> BF_COMMANDS) ?P) 0 Map.empty [] = Inr (Map.empty, [])"
    by (simp only: f scan_no_brackets [OF nb])
  from assms have enc: "encode_latin1 inp = Inr inp" by (simp add: encode_latin1_def)
  from exec_echo [of 0 n n "map int inp" Map.empty 0 "[]"] latin1_cells [OF enc]
  obtain st' where ex: "exec_loop ?P Map.empty (init_state (map int inp)) = Some (Inr st')"
    and o: "out_chars st' = map nat (take n (map int inp @ replicate n 0))"
    by (auto simp: init_state_def)
  have "map int inp @ replicate n 0 = map int (inp @ replicate n 0)" by simp
  then have "map nat (take n (map int inp @ replicate n 0)) = take n (inp @ replicate n 0)"
    by (simp only: take_map [symmetric] map_map comp_def nat_int map_ident)
  with o have o': "out_chars st' = take n (inp @ replicate n 0)" by simp
  have "run_brainfuck ?P inp = Some (Inr (out_chars st'))"
    using run_brainfuck_exec [OF sc enc] by (simp only: f ex option.case sum.case)
  with o' show ?thesis by (simp only: P)
qed

lemma below_16:
  "(k::nat) < 16 \<Longrightarrow> k \<in> {0, 1, 2, 3, 4, 5, 6, 7, 8, 9, 10, 11, 12, 13, 14, 15}"
  by simp arith

lemma digit_value_hex_digit: "k < 16 \<Longrightarrow> digit_value (hex_digit k) = Some k"
  by (drule below_16) (auto simp: digit_value_def hex_digit_def)

lemma hex_digit_not_space: "k < 16 \<Longrightarrow> \<not> is_space (hex_digit k)"
  by (drule below_16) (auto simp: is_space_def hex_digit_def)

lemma bytes_fromhex_hex:
  "list_all (\<lambda>b. b < 256) bs \<Longrightarrow> bytes_fromhex (bytes_hex bs) = Inr bs"
proof (induction bs)
  case Nil
  then show ?case by (simp add: bytes_hex_def)
next
  case (Cons b bs)
  then have "b < 256" by simp
  then have hi: "b div 16 < 16" and lo: "b mod 16 < 16" by arith+
  have split: "bytes_hex (b # bs) = hex_digit (b div 16) # hex_digit (b mod 16) # bytes_hex bs"
    by (simp add: bytes_hex_def)
  from Cons have "bytes_fromhex (bytes_hex bs) = Inr bs" by simp
  then show ?case
    by (simp add: split hex_digit_not_space [OF hi] digit_value_hex_digit [OF hi]
        digit_value_hex_digit [OF lo])
qed

lemma hex_roundtrip:
  assumes "list_all (\<lambda>c. c < 128) p"
  shows "brainfuck_to_hex p = Inr (bytes_hex p)" and "hex_to_brainfuck (bytes_hex p) = Inr p"
proof -
  from assms show "brainfuck_to_hex p = Inr (bytes_hex p)"
    by (simp add: brainfuck_to_hex_def encode_ascii_def)
  from assms have "list_all (\<lambda>b. b < 256) p" by (induction p) auto
  from bytes_fromhex_hex [OF this] assms show "hex_to_brainfuck (bytes_hex p) = Inr p"
    by (simp add: hex_to_brainfuck_def decode_ascii_def)
qed

lemma hex_digit_cases:
  assumes "is_hex_digit c"
  obtains d where "d < 16" and "digit_value c = Some d" and "hex_digit d = ascii_lower c"
    and "\<not> is_space c"
proof -
  from assms consider "48 \<le> c \<and> c \<le> 57" | "97 \<le> c \<and> c \<le> 102" | "65 \<le> c \<and> c \<le> 70"
    by (auto simp: is_hex_digit_def digit_value_def split: if_splits)
  then show ?thesis
  proof cases
    case 1
    then have "c = 48 \<or> c = 49 \<or> c = 50 \<or> c = 51 \<or> c = 52 \<or> c = 53 \<or> c = 54 \<or> c = 55
        \<or> c = 56 \<or> c = 57" by arith
    then show ?thesis
      by (elim disjE; intro that [of "c - 48"];
          simp add: digit_value_def hex_digit_def ascii_lower_def is_space_def)
  next
    case 2
    then have "c = 97 \<or> c = 98 \<or> c = 99 \<or> c = 100 \<or> c = 101 \<or> c = 102" by arith
    then show ?thesis
      by (elim disjE; intro that [of "c - 87"];
          simp add: digit_value_def hex_digit_def ascii_lower_def is_space_def)
  next
    case 3
    then have "c = 65 \<or> c = 66 \<or> c = 67 \<or> c = 68 \<or> c = 69 \<or> c = 70" by arith
    then show ?thesis
      by (elim disjE; intro that [of "c - 55"];
          simp add: digit_value_def hex_digit_def ascii_lower_def is_space_def)
  qed
qed

lemma bytes_fromhex_digits:
  "even (length h) \<Longrightarrow> list_all is_hex_digit h \<Longrightarrow> bytes_fromhex h = Inr (byte_values h)"
proof (induction h rule: byte_values.induct)
  case (1 a b cs)
  from 1 have "is_hex_digit a" "is_hex_digit b" by simp_all
  then obtain x y where "digit_value a = Some x" "\<not> is_space a" "digit_value b = Some y"
    by (auto elim!: hex_digit_cases)
  with 1 show ?case by simp
qed simp_all

lemma bytes_hex_byte_values:
  "even (length h) \<Longrightarrow> list_all is_hex_digit h \<Longrightarrow> bytes_hex (byte_values h) = lower h"
proof (induction h rule: byte_values.induct)
  case (1 a b cs)
  from 1 have "is_hex_digit a" "is_hex_digit b" by simp_all
  then obtain x y where x: "x < 16" "digit_value a = Some x" "hex_digit x = ascii_lower a"
    and y: "y < 16" "digit_value b = Some y" "hex_digit y = ascii_lower b"
    by (auto elim!: hex_digit_cases)
  from x(1) y(1) have "(x * 16 + y) div 16 = x" "(x * 16 + y) mod 16 = y" by simp_all
  with 1 x y show ?case by (simp add: bytes_hex_def lower_def)
qed (simp_all add: bytes_hex_def lower_def)

lemma byte_values_below_256:
  "list_all is_hex_digit h \<Longrightarrow> list_all (\<lambda>b. b < 256) (byte_values h)"
proof (induction h rule: byte_values.induct)
  case (1 a b cs)
  from 1 have "is_hex_digit a" "is_hex_digit b" by simp_all
  then obtain x y where "x < 16" "digit_value a = Some x" "y < 16" "digit_value b = Some y"
    by (auto elim!: hex_digit_cases)
  with 1 show ?case by simp
qed simp_all

lemma bytes_fromhex_malformed:
  "list_all (\<lambda>c. \<not> is_space c) h \<Longrightarrow> odd (length h) \<or> \<not> list_all is_hex_digit h \<Longrightarrow>
   bytes_fromhex h = Inl ValueError"
proof (induction h rule: byte_values.induct)
  case (1 a b cs)
  then show ?case
    by (auto simp: is_hex_digit_def split: option.splits)
qed (simp_all split: option.splits)

lemma bytes_fromhex_error: "bytes_fromhex h = Inl e \<Longrightarrow> e = ValueError"
  by (induction h arbitrary: e rule: bytes_fromhex.induct)
    (auto split: if_splits option.splits list.splits sum.splits)

lemma bytes_fromhex_skip: "list_all is_space ws \<Longrightarrow> bytes_fromhex (ws @ cs) = bytes_fromhex cs"
  by (induction ws) simp_all

lemma bytes_fromhex_spaces: "list_all is_space w \<Longrightarrow> bytes_fromhex w = Inr []"
  by (induction w) simp_all

lemma bytes_fromhex_layout:
  "well_laid ts w \<Longrightarrow> bytes_fromhex (hex_layout ts w) = Inr (layout_bytes ts)"
proof (induction ts)
  case Nil
  then show ?case by (simp add: well_laid_def layout_bytes_def bytes_fromhex_spaces)
next
  case (Cons t ts)
  obtain ws a b where t: "t = (ws, a, b)" by (cases t)
  from Cons.prems t have ws: "list_all is_space ws" and a: "is_hex_digit a"
    and b: "is_hex_digit b" and rest: "well_laid ts w"
    by (simp_all add: well_laid_def)
  from a b obtain x y where "digit_value a = Some x" "\<not> is_space a" "digit_value b = Some y"
    by (auto elim!: hex_digit_cases)
  with Cons.IH [OF rest] show ?case
    by (simp add: t bytes_fromhex_skip [OF ws] layout_bytes_def)
qed

lemma bytes_fromhex_laid:
  "bytes_fromhex h = Inr bs \<Longrightarrow> \<exists>ts w. well_laid ts w \<and> h = hex_layout ts w"
proof (induction h arbitrary: bs rule: bytes_fromhex.induct)
  case 1
  have "well_laid [] [] \<and> [] = hex_layout [] []" by (simp add: well_laid_def)
  then show ?case by blast
next
  case (2 c cs)
  show ?case
  proof (cases "is_space c")
    case True
    with "2.prems" have "bytes_fromhex cs = Inr bs" by simp
    from "2.IH"(1) [OF True this] obtain ts w where wl: "well_laid ts w"
      and cs: "cs = hex_layout ts w" by blast
    show ?thesis
    proof (cases ts)
      case Nil
      with wl cs True have "well_laid [] (c # w) \<and> c # cs = hex_layout [] (c # w)"
        by (simp add: well_laid_def)
      then show ?thesis by blast
    next
      case (Cons t ts')
      obtain ws a b where t: "t = (ws, a, b)" by (cases t)
      with Cons wl cs True
      have "well_laid ((c # ws, a, b) # ts') w \<and> c # cs = hex_layout ((c # ws, a, b) # ts') w"
        by (simp add: well_laid_def)
      then show ?thesis by blast
    qed
  next
    case False
    with "2.prems" obtain hi where hi: "digit_value c = Some hi"
      by (auto split: option.splits)
    with False "2.prems" obtain d ds where cs: "cs = d # ds"
      by (auto split: list.splits)
    with False hi "2.prems" obtain lo where lo: "digit_value d = Some lo"
      by (auto split: option.splits)
    with False hi cs "2.prems" obtain bs' where "bytes_fromhex ds = Inr bs'"
      by (auto split: sum.splits)
    from "2.IH"(2) [OF False hi cs lo this] obtain ts w where wl: "well_laid ts w"
      and ds: "ds = hex_layout ts w" by blast
    with hi lo cs
    have "well_laid (([], c, d) # ts) w \<and> c # cs = hex_layout (([], c, d) # ts) w"
      by (simp add: well_laid_def is_hex_digit_def)
    then show ?thesis by blast
  qed
qed

lemma ascii_lower_digit: "digit_value (ascii_lower c) = digit_value c"
  by (simp add: ascii_lower_def digit_value_def)

lemma ascii_lower_space: "is_space (ascii_lower c) = is_space c"
  by (auto simp: ascii_lower_def is_space_def)

lemma bytes_fromhex_lower: "bytes_fromhex (lower h) = bytes_fromhex h"
proof (induction h rule: bytes_fromhex.induct)
  case 1
  then show ?case by (simp add: lower_def)
next
  case (2 c cs)
  show ?case
  proof (cases "is_space c")
    case True
    with "2.IH"(1) show ?thesis
      by (simp add: lower_def ascii_lower_space)
  next
    case False
    note ns = this
    show ?thesis
    proof (cases "digit_value c")
      case None
      with ns show ?thesis by (simp add: lower_def ascii_lower_space ascii_lower_digit)
    next
      case (Some hi)
      note hi = this
      show ?thesis
      proof (cases cs)
        case Nil
        with ns hi show ?thesis by (simp add: lower_def ascii_lower_space ascii_lower_digit)
      next
        case (Cons d ds)
        note cs = this
        show ?thesis
        proof (cases "digit_value d")
          case None
          with ns hi cs show ?thesis
            by (simp add: lower_def ascii_lower_space ascii_lower_digit)
        next
          case (Some lo)
          from "2.IH"(2) [OF ns hi cs Some] ns hi cs Some show ?thesis
            by (simp add: lower_def ascii_lower_space ascii_lower_digit)
        qed
      qed
    qed
  qed
qed

lemma hex_to_brainfuck_digits:
  assumes "even (length h)" and "list_all is_hex_digit h"
  shows "hex_to_brainfuck h =
    (if list_all (\<lambda>b. b < 128) (byte_values h) then Inr (byte_values h)
     else Inl UnicodeDecodeError)"
  by (simp add: hex_to_brainfuck_def bytes_fromhex_digits [OF assms] decode_ascii_def)

lemma loop_emitted:
  "concat (text_to_brainfuck_loop msg code cur) = concat code @ emitted cur msg"
  by (induction msg arbitrary: code cur) (simp_all add: Let_def delta_code_def)

lemma text_to_brainfuck_emitted: "text_to_brainfuck msg = emitted 0 msg"
  by (simp add: text_to_brainfuck_def loop_emitted)

lemma set_delta_code: "set (delta_code cur t) \<subseteq> {ch CHR ''+'', ch CHR ''-''}"
  by (auto simp: delta_code_def)

lemma set_emitted: "set (emitted cur msg) \<subseteq> {ch CHR ''+'', ch CHR ''-'', ch CHR ''.''}"
proof (induction msg arbitrary: cur)
  case Nil
  then show ?case by simp
next
  case (Cons c msg)
  from set_delta_code [of cur "int c"] Cons [of "int c"] show ?case by auto
qed

lemma exec_plus:
  "exec_loop (pre @ replicate k (ch CHR ''+'') @ post) jumps
     \<lparr>tape = [v], ptr = 0, pc = length pre, out_chars = out, in_buf = buf\<rparr>
   = exec_loop (pre @ replicate k (ch CHR ''+'') @ post) jumps
     \<lparr>tape = [(v + int k) mod 256], ptr = 0, pc = length pre + k, out_chars = out, in_buf = buf\<rparr>"
  if "0 \<le> v" "v < 256"
  using that
proof (induction k arbitrary: pre v)
  case 0
  then show ?case by simp
next
  case (Suc k)
  let ?P = "pre @ replicate (Suc k) (ch CHR ''+'') @ post"
  let ?s0 = "\<lparr>tape = [v], ptr = 0, pc = length pre, out_chars = out, in_buf = buf\<rparr>"
  let ?s1 = "\<lparr>tape = [(v + 1) mod 256], ptr = 0, pc = length (pre @ [ch CHR ''+'']),
              out_chars = out, in_buf = buf\<rparr>"
  have P: "?P = (pre @ [ch CHR ''+'']) @ replicate k (ch CHR ''+'') @ post" by simp
  have "step ?P jumps ?s0 = Inr ?s1"
    by (simp add: step_plus ptr_valid_def nth_append)
  then have "exec_loop ?P jumps ?s0 = exec_loop ?P jumps ?s1"
    by (intro exec_loop_next) simp_all
  also have "\<dots> = exec_loop ?P jumps
      \<lparr>tape = [((v + 1) mod 256 + int k) mod 256], ptr = 0,
        pc = length (pre @ [ch CHR ''+'']) + k, out_chars = out, in_buf = buf\<rparr>"
    unfolding P by (rule Suc.IH) simp_all
  also have "((v + 1) mod 256 + int k) mod 256 = (v + int (Suc k)) mod 256"
  proof -
    have "((v + 1) mod 256 + int k) mod 256 = (v + 1 + int k) mod 256"
      by (rule mod_add_left_eq)
    then show ?thesis by (simp add: add.assoc)
  qed
  finally show ?case by simp
qed

lemma exec_minus:
  "exec_loop (pre @ replicate k (ch CHR ''-'') @ post) jumps
     \<lparr>tape = [v], ptr = 0, pc = length pre, out_chars = out, in_buf = buf\<rparr>
   = exec_loop (pre @ replicate k (ch CHR ''-'') @ post) jumps
     \<lparr>tape = [(v - int k) mod 256], ptr = 0, pc = length pre + k, out_chars = out, in_buf = buf\<rparr>"
  if "0 \<le> v" "v < 256"
  using that
proof (induction k arbitrary: pre v)
  case 0
  then show ?case by simp
next
  case (Suc k)
  let ?P = "pre @ replicate (Suc k) (ch CHR ''-'') @ post"
  let ?s0 = "\<lparr>tape = [v], ptr = 0, pc = length pre, out_chars = out, in_buf = buf\<rparr>"
  let ?s1 = "\<lparr>tape = [(v - 1) mod 256], ptr = 0, pc = length (pre @ [ch CHR ''-'']),
              out_chars = out, in_buf = buf\<rparr>"
  have P: "?P = (pre @ [ch CHR ''-'']) @ replicate k (ch CHR ''-'') @ post" by simp
  have "step ?P jumps ?s0 = Inr ?s1"
    by (simp add: step_minus ptr_valid_def nth_append)
  then have "exec_loop ?P jumps ?s0 = exec_loop ?P jumps ?s1"
    by (intro exec_loop_next) simp_all
  also have "\<dots> = exec_loop ?P jumps
      \<lparr>tape = [((v - 1) mod 256 - int k) mod 256], ptr = 0,
        pc = length (pre @ [ch CHR ''-'']) + k, out_chars = out, in_buf = buf\<rparr>"
    unfolding P by (rule Suc.IH) simp_all
  also have "((v - 1) mod 256 - int k) mod 256 = (v - int (Suc k)) mod 256"
  proof -
    have "((v - 1) mod 256 - int k) mod 256 = (v - 1 - int k) mod 256"
      by (rule mod_diff_left_eq)
    moreover have "v - 1 - int k = v - int (Suc k)" by simp
    ultimately show ?thesis by (simp only:)
  qed
  finally show ?case by simp
qed

lemma exec_delta:
  assumes "0 \<le> cur" "cur < 256" "0 \<le> t" "t < 256"
  shows "exec_loop (pre @ delta_code cur t @ post) jumps
     \<lparr>tape = [cur], ptr = 0, pc = length pre, out_chars = out, in_buf = buf\<rparr>
   = exec_loop (pre @ delta_code cur t @ post) jumps
     \<lparr>tape = [t], ptr = 0, pc = length pre + length (delta_code cur t),
       out_chars = out, in_buf = buf\<rparr>"
proof -
  consider (up) "t - cur > 0" | (down) "t - cur < 0" | (same) "t = cur" by linarith
  then show ?thesis
  proof cases
    case up
    then have d: "delta_code cur t = replicate (nat (t - cur)) (ch CHR ''+'')"
      by (simp add: delta_code_def)
    from up assms have "(cur + int (nat (t - cur))) mod 256 = t" by simp
    with exec_plus [OF assms(1,2), of pre "nat (t - cur)" post jumps out buf]
    show ?thesis by (simp add: d)
  next
    case down
    then have d: "delta_code cur t = replicate (nat (- (t - cur))) (ch CHR ''-'')"
      by (simp add: delta_code_def)
    from down assms have "(cur - int (nat (- (t - cur)))) mod 256 = t" by simp
    with exec_minus [OF assms(1,2), of pre "nat (- (t - cur))" post jumps out buf]
    show ?thesis by (simp add: d)
  next
    case same
    then show ?thesis by (simp add: delta_code_def)
  qed
qed

lemma exec_emitted:
  "0 \<le> cur \<Longrightarrow> cur < 256 \<Longrightarrow> list_all (\<lambda>c. c \<le> 255) msg \<Longrightarrow>
   \<exists>st'. exec_loop (pre @ emitted cur msg) jumps
            \<lparr>tape = [cur], ptr = 0, pc = length pre, out_chars = out, in_buf = buf\<rparr>
          = Some (Inr st')
        \<and> out_chars st' = out @ msg"
proof (induction msg arbitrary: pre cur out)
  case Nil
  then show ?case by (simp add: exec_loop_halt)
next
  case (Cons c msg)
  let ?D = "delta_code cur (int c)"
  let ?P = "pre @ emitted cur (c # msg)"
  let ?pre' = "pre @ ?D @ [ch CHR ''.'']"
  let ?s0 = "\<lparr>tape = [cur], ptr = 0, pc = length pre, out_chars = out, in_buf = buf\<rparr>"
  let ?s1 = "\<lparr>tape = [int c], ptr = 0, pc = length pre + length ?D, out_chars = out,
              in_buf = buf\<rparr>"
  let ?s2 = "\<lparr>tape = [int c], ptr = 0, pc = length ?pre', out_chars = out @ [c],
              in_buf = buf\<rparr>"
  from Cons.prems have c: "0 \<le> int c" "int c < 256" and rest: "list_all (\<lambda>c. c \<le> 255) msg"
    by simp_all
  have P1: "?P = pre @ ?D @ (ch CHR ''.'' # emitted (int c) msg)" by simp
  have P2: "?P = ?pre' @ emitted (int c) msg" by simp
  have "exec_loop ?P jumps ?s0 = exec_loop ?P jumps ?s1"
    unfolding P1 by (rule exec_delta [OF Cons.prems(1,2) c])
  also have "\<dots> = exec_loop ?P jumps ?s2"
  proof (rule exec_loop_next)
    show "pc ?s1 < length ?P" by simp
    have "?P ! (length pre + length ?D) = ch CHR ''.''"
      unfolding P1 by (simp add: nth_append)
    then show "step ?P jumps ?s1 = Inr ?s2"
      using c by (simp add: step_dot ptr_valid_def cell_ok_def)
  qed
  finally have eq: "exec_loop ?P jumps ?s0 = exec_loop ?P jumps ?s2" .
  from Cons.IH [OF c rest, of ?pre' "out @ [c]"] obtain st' where
    "exec_loop (?pre' @ emitted (int c) msg) jumps ?s2 = Some (Inr st')"
    and "out_chars st' = (out @ [c]) @ msg"
    by blast
  with eq show ?case by (simp only: P2 [symmetric]) simp
qed

lemma run_emitted:
  assumes "list_all (\<lambda>c. c \<le> 255) msg"
  shows "run_brainfuck (emitted 0 msg) [] = Some (Inr msg)"
proof -
  let ?P = "emitted 0 msg"
  from set_emitted [of 0 msg]
  have sub: "set ?P \<subseteq> BF_COMMANDS"
    and nb: "ch CHR ''['' \<notin> set ?P" "ch CHR '']'' \<notin> set ?P"
    by (auto simp: BF_COMMANDS_def py_def)
  note f = filter_commands_id [OF sub]
  have sc: "scan_brackets (filter (\<lambda>c. c \<in> BF_COMMANDS) ?P) 0 Map.empty [] = Inr (Map.empty, [])"
    by (simp only: f scan_no_brackets [OF nb])
  have enc: "encode_latin1 [] = Inr []" by (simp add: encode_latin1_def)
  from exec_emitted [OF _ _ assms, of 0 "[]" Map.empty "[]" "[]"]
  obtain st' where ex: "exec_loop ?P Map.empty (init_state (map int [])) = Some (Inr st')"
    and o: "out_chars st' = msg"
    by (auto simp: init_state_def)
  have "run_brainfuck ?P [] = Some (Inr (out_chars st'))"
    using run_brainfuck_exec [OF sc enc] by (simp only: f ex option.case sum.case)
  with o show ?thesis by simp
qed

section \<open>Claims\<close>

subsection \<open>The facade\<close>

text \<open>
  C1. For every text whose characters all have code points from 0 to 255,
  \<open>encode_to_hex\<close> returns a hexadecimal string, and \<open>decode_from_hex\<close> of that string
  returns (it does not loop and does not raise) the text itself.
\<close>

theorem decode_encode_roundtrip:
  assumes "list_all (\<lambda>c. c \<le> 255) msg"
  shows "\<exists>h. encode_to_hex msg = Inr h \<and> decode_from_hex h = Some (Inr msg)"
proof -
  let ?P = "text_to_brainfuck msg"
  from set_emitted [of 0 msg] have ascii: "list_all (\<lambda>c. c < 128) ?P"
    by (auto simp: text_to_brainfuck_emitted list_all_iff)
  from hex_roundtrip [OF ascii] have enc: "encode_to_hex msg = Inr (bytes_hex ?P)"
    and dec: "hex_to_brainfuck (bytes_hex ?P) = Inr ?P"
    by (simp_all add: encode_to_hex_def)
  from dec run_emitted [OF assms]
  have "decode_from_hex (bytes_hex ?P) = Some (Inr msg)"
    by (simp add: decode_from_hex_def text_to_brainfuck_emitted)
  with enc show ?thesis by blast
qed

theorem decode_encode_roundtrip_witness:
  "list_all (\<lambda>c. c \<le> 255) [72, 233, 0::nat]
   \<and> encode_to_hex [72, 233, 0] = Inr (bytes_hex (text_to_brainfuck [72, 233, 0]))
   \<and> (\<exists>h. encode_to_hex [72, 233, 0] = Inr h \<and> decode_from_hex h = Some (Inr [72, 233, 0]))"
proof -
  have h: "list_all (\<lambda>c. c \<le> 255) [72, 233, 0::nat]" by simp
  have e: "encode_to_hex [72, 233, 0] = Inr (bytes_hex (text_to_brainfuck [72, 233, 0]))"
    by (simp add: encode_to_hex_def brainfuck_to_hex_def encode_ascii_def
        text_to_brainfuck_def Let_def list_all_iff)
  from decode_encode_roundtrip [OF h] h e show ?thesis by blast
qed

subsection \<open>The transcoder\<close>

text \<open>
  C2, as amended. \<open>hex_to_brainfuck (brainfuck_to_hex p) = p\<close> for every ASCII string \<open>p\<close>
  (on any other string \<open>brainfuck_to_hex\<close> raises the encoding error), and
  \<open>brainfuck_to_hex (hex_to_brainfuck h) = h.lower()\<close> for every string \<open>h\<close> of even length
  made of hexadecimal digits whose pairs all denote values below 128; when a pair denotes a
  value from 128 to 255, \<open>hex_to_brainfuck\<close> raises the decoding error.
\<close>

theorem transcoder_roundtrip_ascii:
  "(list_all (\<lambda>c. c < 128) p \<longrightarrow>
      (\<exists>h. brainfuck_to_hex p = Inr h \<and> hex_to_brainfuck h = Inr p))
   \<and> (\<not> list_all (\<lambda>c. c < 128) p1 \<longrightarrow> brainfuck_to_hex p1 = Inl UnicodeEncodeError)
   \<and> (even (length h2) \<and> list_all is_hex_digit h2
        \<and> list_all (\<lambda>b. b < 128) (byte_values h2) \<longrightarrow>
        (\<exists>q. hex_to_brainfuck h2 = Inr q \<and> brainfuck_to_hex q = Inr (lower h2)))
   \<and> (even (length h3) \<and> list_all is_hex_digit h3
        \<and> \<not> list_all (\<lambda>b. b < 128) (byte_values h3) \<longrightarrow>
        hex_to_brainfuck h3 = Inl UnicodeDecodeError)"
proof (intro conjI impI)
  assume "list_all (\<lambda>c. c < 128) p"
  from hex_roundtrip [OF this]
  show "\<exists>h. brainfuck_to_hex p = Inr h \<and> hex_to_brainfuck h = Inr p" by blast
next
  assume "\<not> list_all (\<lambda>c. c < 128) p1"
  then show "brainfuck_to_hex p1 = Inl UnicodeEncodeError"
    by (simp add: brainfuck_to_hex_def encode_ascii_def)
next
  assume h: "even (length h2) \<and> list_all is_hex_digit h2
        \<and> list_all (\<lambda>b. b < 128) (byte_values h2)"
  then have "hex_to_brainfuck h2 = Inr (byte_values h2)"
    by (simp add: hex_to_brainfuck_digits)
  moreover from h have "brainfuck_to_hex (byte_values h2) = Inr (lower h2)"
    by (simp add: brainfuck_to_hex_def encode_ascii_def bytes_hex_byte_values)
  ultimately show "\<exists>q. hex_to_brainfuck h2 = Inr q \<and> brainfuck_to_hex q = Inr (lower h2)"
    by blast
next
  assume "even (length h3) \<and> list_all is_hex_digit h3
        \<and> \<not> list_all (\<lambda>b. b < 128) (byte_values h3)"
  then show "hex_to_brainfuck h3 = Inl UnicodeDecodeError"
    by (simp add: hex_to_brainfuck_digits)
qed

theorem transcoder_roundtrip_ascii_witness:
  "list_all (\<lambda>c. c < 128) (py ''+-.'')
   \<and> brainfuck_to_hex (py ''+-.'') = Inr (py ''2b2d2e'')
   \<and> hex_to_brainfuck (py ''2b2d2e'') = Inr (py ''+-.'')
   \<and> \<not> list_all (\<lambda>c. c < 128) [233::nat]
   \<and> brainfuck_to_hex [233] = Inl UnicodeEncodeError
   \<and> even (length (py ''2B2d'')) \<and> list_all is_hex_digit (py ''2B2d'')
   \<and> list_all (\<lambda>b. b < 128) (byte_values (py ''2B2d''))
   \<and> hex_to_brainfuck (py ''2B2d'') = Inr (py ''+-'')
   \<and> brainfuck_to_hex (py ''+-'') = Inr (py ''2b2d'')
   \<and> lower (py ''2B2d'') = py ''2b2d''
   \<and> even (length (py ''ff'')) \<and> list_all is_hex_digit (py ''ff'')
   \<and> \<not> list_all (\<lambda>b. b < 128) (byte_values (py ''ff''))
   \<and> hex_to_brainfuck (py ''ff'') = Inl UnicodeDecodeError"
proof -
  have h0: "list_all (\<lambda>c. c < 128) (py ''+-.'')" by (simp add: py_def)
  have h1: "\<not> list_all (\<lambda>c. c < 128) [233::nat]" by simp
  have h2: "even (length (py ''2B2d'')) \<and> list_all is_hex_digit (py ''2B2d'')
      \<and> list_all (\<lambda>b. b < 128) (byte_values (py ''2B2d''))"
    by (simp add: py_def is_hex_digit_def digit_value_def)
  have h3: "even (length (py ''ff'')) \<and> list_all is_hex_digit (py ''ff'')
      \<and> \<not> list_all (\<lambda>b. b < 128) (byte_values (py ''ff''))"
    by (simp add: py_def is_hex_digit_def digit_value_def)
  have e0: "brainfuck_to_hex (py ''+-.'') = Inr (py ''2b2d2e'')" by code_simp
  have e2: "hex_to_brainfuck (py ''2B2d'') = Inr (py ''+-'')" by code_simp
  have l2: "lower (py ''2B2d'') = py ''2b2d''" by code_simp
  note inst = transcoder_roundtrip_ascii
    [where p = "py ''+-.''" and ?p1.0 = "[233]" and ?h2.0 = "py ''2B2d''" and ?h3.0 = "py ''ff''"]
  from inst h0 e0 have c0: "hex_to_brainfuck (py ''2b2d2e'') = Inr (py ''+-.'')" by auto
  from inst h1 have c1: "brainfuck_to_hex [233] = Inl UnicodeEncodeError" by blast
  from inst h2 e2 l2 have c2: "brainfuck_to_hex (py ''+-'') = Inr (py ''2b2d'')" by auto
  from inst h3 have c3: "hex_to_brainfuck (py ''ff'') = Inl UnicodeDecodeError" by blast
  from h0 h1 h2 h3 e0 e2 l2 c0 c1 c2 c3 show ?thesis by blast
qed

text \<open>
  The claim as stated fails on \<open>ff\<close>: two hexadecimal digits, and no result to encode back.
\<close>

theorem transcoder_roundtrip_high_bytes_counterexample:
  "even (length (py ''ff'')) \<and> list_all is_hex_digit (py ''ff'')
   \<and> hex_to_brainfuck (py ''ff'') = Inl UnicodeDecodeError"
  by (simp add: py_def is_hex_digit_def digit_value_def hex_to_brainfuck_def decode_ascii_def
      is_space_def)

text \<open>
  C3, as amended. \<open>hex_to_brainfuck\<close> raises \<open>ValueError\<close> exactly on the strings that are
  not pairs of hexadecimal digits laid out with whitespace before a pair or at the end. On
  such a layout it returns the bytes of the pairs when they are all below 128 and raises the
  decoding error otherwise. So on a string with no whitespace it raises exactly when the
  length is odd, a character is outside \<open>[0-9a-fA-F]\<close>, or a pair denotes a value from 128
  to 255. The case of the digits makes no difference.
\<close>

theorem hex_to_brainfuck_failures:
  "(hex_to_brainfuck h = Inl ValueError \<longleftrightarrow> \<not> (\<exists>ts w. well_laid ts w \<and> h = hex_layout ts w))
   \<and> (well_laid ts1 w1 \<longrightarrow>
        hex_to_brainfuck (hex_layout ts1 w1) =
          (if list_all (\<lambda>b. b < 128) (layout_bytes ts1) then Inr (layout_bytes ts1)
           else Inl UnicodeDecodeError))
   \<and> (list_all (\<lambda>c. \<not> is_space c) h2 \<longrightarrow>
        hex_to_brainfuck h2 =
          (if odd (length h2) \<or> \<not> list_all is_hex_digit h2 then Inl ValueError
           else if list_all (\<lambda>b. b < 128) (byte_values h2) then Inr (byte_values h2)
           else Inl UnicodeDecodeError))
   \<and> hex_to_brainfuck (lower h3) = hex_to_brainfuck h3"
proof (intro conjI impI)
  show "hex_to_brainfuck h = Inl ValueError \<longleftrightarrow> \<not> (\<exists>ts w. well_laid ts w \<and> h = hex_layout ts w)"
  proof
    assume f: "hex_to_brainfuck h = Inl ValueError"
    show "\<not> (\<exists>ts w. well_laid ts w \<and> h = hex_layout ts w)"
    proof
      assume "\<exists>ts w. well_laid ts w \<and> h = hex_layout ts w"
      then obtain ts w where "well_laid ts w" and "h = hex_layout ts w" by blast
      with bytes_fromhex_layout [of ts w] have "bytes_fromhex h = Inr (layout_bytes ts)" by simp
      with f show False
        by (simp add: hex_to_brainfuck_def decode_ascii_def split: if_splits)
    qed
  next
    assume n: "\<not> (\<exists>ts w. well_laid ts w \<and> h = hex_layout ts w)"
    show "hex_to_brainfuck h = Inl ValueError"
    proof (cases "bytes_fromhex h")
      case (Inl e)
      with bytes_fromhex_error [OF Inl] show ?thesis by (simp add: hex_to_brainfuck_def)
    next
      case (Inr bs)
      from bytes_fromhex_laid [OF this] n show ?thesis by blast
    qed
  qed
next
  assume "well_laid ts1 w1"
  from bytes_fromhex_layout [OF this]
  show "hex_to_brainfuck (hex_layout ts1 w1) =
          (if list_all (\<lambda>b. b < 128) (layout_bytes ts1) then Inr (layout_bytes ts1)
           else Inl UnicodeDecodeError)"
    by (simp add: hex_to_brainfuck_def decode_ascii_def)
next
  assume ns: "list_all (\<lambda>c. \<not> is_space c) h2"
  show "hex_to_brainfuck h2 =
          (if odd (length h2) \<or> \<not> list_all is_hex_digit h2 then Inl ValueError
           else if list_all (\<lambda>b. b < 128) (byte_values h2) then Inr (byte_values h2)
           else Inl UnicodeDecodeError)"
  proof (cases "odd (length h2) \<or> \<not> list_all is_hex_digit h2")
    case True
    from bytes_fromhex_malformed [OF ns True] True show ?thesis
      by (simp add: hex_to_brainfuck_def)
  next
    case False
    then have "even (length h2)" "list_all is_hex_digit h2" by simp_all
    from hex_to_brainfuck_digits [OF this] False show ?thesis by simp
  qed
next
  show "hex_to_brainfuck (lower h3) = hex_to_brainfuck h3"
    by (simp add: hex_to_brainfuck_def bytes_fromhex_lower)
qed

theorem hex_to_brainfuck_failures_witness:
  "hex_to_brainfuck (py ''zz'') = Inl ValueError
   \<and> \<not> (\<exists>ts w. well_laid ts w \<and> py ''zz'' = hex_layout ts w)
   \<and> well_laid [(py '' '', ch CHR ''2'', ch CHR ''B'')] (py ''  '')
   \<and> hex_to_brainfuck (py '' 2B  '') = Inr (py ''+'')
   \<and> list_all (\<lambda>c. \<not> is_space c) (py ''abc'')
   \<and> hex_to_brainfuck (py ''abc'') = Inl ValueError
   \<and> hex_to_brainfuck (py ''2B'') = hex_to_brainfuck (py ''2b'')"
proof -
  have h0: "hex_to_brainfuck (py ''zz'') = Inl ValueError" by code_simp
  have h1: "well_laid [(py '' '', ch CHR ''2'', ch CHR ''B'')] (py ''  '')"
    by (simp add: well_laid_def py_def is_space_def is_hex_digit_def digit_value_def)
  have l1: "hex_layout [(py '' '', ch CHR ''2'', ch CHR ''B'')] (py ''  '') = py '' 2B  ''"
    by (simp add: py_def)
  have b1: "layout_bytes [(py '' '', ch CHR ''2'', ch CHR ''B'')] = py ''+''"
    by (simp add: layout_bytes_def py_def digit_value_def)
  have h2: "list_all (\<lambda>c. \<not> is_space c) (py ''abc'')" by (simp add: py_def is_space_def)
  have l3: "lower (py ''2B'') = py ''2b''" by code_simp
  note inst = hex_to_brainfuck_failures
    [where h = "py ''zz''" and ?ts1.0 = "[(py '' '', ch CHR ''2'', ch CHR ''B'')]"
       and ?w1.0 = "py ''  ''" and ?h2.0 = "py ''abc''" and ?h3.0 = "py ''2B''"]
  from inst h0 have c0: "\<not> (\<exists>ts w. well_laid ts w \<and> py ''zz'' = hex_layout ts w)" by blast
  from inst h1 have "hex_to_brainfuck (hex_layout [(py '' '', ch CHR ''2'', ch CHR ''B'')] (py ''  ''))
      = (if list_all (\<lambda>b. b < 128) (layout_bytes [(py '' '', ch CHR ''2'', ch CHR ''B'')])
         then Inr (layout_bytes [(py '' '', ch CHR ''2'', ch CHR ''B'')])
         else Inl UnicodeDecodeError)" by blast
  then have c1: "hex_to_brainfuck (py '' 2B  '') = Inr (py ''+'')"
    by (simp only: l1 b1) (simp add: py_def)
  from inst h2 have c2: "hex_to_brainfuck (py ''abc'') = Inl ValueError"
    by (simp add: py_def)
  from inst l3 have c3: "hex_to_brainfuck (py ''2B'') = hex_to_brainfuck (py ''2b'')" by simp
  from h0 h1 h2 c0 c1 c2 c3 show ?thesis by blast
qed

text \<open>
  The claim as stated fails in both directions: \<open>2b 2D\<close> has odd length and a space and
  decodes to \<open>+-\<close>; \<open>80\<close> is two hexadecimal digits and raises.
\<close>

theorem hex_to_brainfuck_iff_counterexample:
  "odd (length (py ''2b 2D'')) \<and> \<not> list_all is_hex_digit (py ''2b 2D'')
   \<and> hex_to_brainfuck (py ''2b 2D'') = Inr (py ''+-'')
   \<and> even (length (py ''80'')) \<and> list_all is_hex_digit (py ''80'')
   \<and> hex_to_brainfuck (py ''80'') = Inl UnicodeDecodeError"
  by (simp add: py_def is_hex_digit_def digit_value_def hex_to_brainfuck_def decode_ascii_def
      is_space_def)

subsection \<open>Bracket resolution\<close>

text \<open>
  C4, as amended. When the scan ends with pending open brackets, \<open>run_brainfuck\<close> raises
  the unmatched-open error with the position on top of the stack: the pending positions
  are increasing positions of \<open>[\<close> in the filtered program, and the one reported is the
  last (greatest) of them, not the first.
\<close>

theorem unmatched_open_reports_latest_pending:
  assumes "scan_brackets (filter (\<lambda>c. c \<in> BF_COMMANDS) code) 0 Map.empty [] = Inr (jumps, stack)"
    and "stack \<noteq> []"
  shows "run_brainfuck code inp = Some (Inl (UnmatchedOpen (last stack)))
    \<and> sorted_wrt (<) stack
    \<and> (\<forall>p\<in>set stack. p \<le> last stack \<and> p < length (filter (\<lambda>c. c \<in> BF_COMMANDS) code)
          \<and> filter (\<lambda>c. c \<in> BF_COMMANDS) code ! p = ch CHR ''['')"
proof -
  from scan_brackets_stack [of _ "[]", simplified, OF assms(1)]
  have srt: "sorted_wrt (<) stack"
    and pos: "\<forall>p\<in>set stack. p < length (filter (\<lambda>c. c \<in> BF_COMMANDS) code)
          \<and> filter (\<lambda>c. c \<in> BF_COMMANDS) code ! p = ch CHR ''[''"
    by simp_all
  from srt have "\<forall>p\<in>set stack. p \<le> last stack" by (blast intro: sorted_wrt_less_last)
  with srt pos run_brainfuck_pending [OF assms] show ?thesis by blast
qed

theorem unmatched_open_reports_latest_pending_witness:
  "scan_brackets (filter (\<lambda>c. c \<in> BF_COMMANDS) (py ''[['')) 0 Map.empty [] = Inr (Map.empty, [0, 1])
   \<and> run_brainfuck (py ''[['') [] = Some (Inl (UnmatchedOpen 1))"
proof -
  have h: "scan_brackets (filter (\<lambda>c. c \<in> BF_COMMANDS) (py ''[['')) 0 Map.empty []
      = Inr (Map.empty, [0, 1])"
    by (simp add: BF_COMMANDS_def py_def)
  from unmatched_open_reports_latest_pending [OF h, of "[]"] h show ?thesis by simp
qed

text \<open>
  The claim as stated (the earliest pending bracket is reported) fails on \<open>[[\<close>: the
  error carries position 1.
\<close>

theorem unmatched_open_earliest_counterexample:
  "run_brainfuck (py ''[['') [] = Some (Inl (UnmatchedOpen 1))
   \<and> run_brainfuck (py ''[['') [] \<noteq> Some (Inl (UnmatchedOpen 0))"
  by (simp add: run_brainfuck_def BF_COMMANDS_def py_def)

text \<open>
  C5. \<open>]\<close> is rejected with the unmatched-close error at 0 and \<open>[\<close> with the
  unmatched-open error at 0, whatever the input; \<open>[]\<close> returns the empty output. A
  failed scan and a scan that ends with pending brackets decide the result alone: the
  loop is not entered and the result is the error, which carries no output. And every
  exception of \<open>run_brainfuck\<close> is raised before the loop: it is a bracket error of the
  scan or the encoding error of the input.
\<close>

theorem bracket_errors_before_execution:
  "run_brainfuck (py '']'') inp = Some (Inl (UnmatchedClose 0))
   \<and> run_brainfuck (py ''['') inp = Some (Inl (UnmatchedOpen 0))
   \<and> run_brainfuck (py ''[]'') [] = Some (Inr [])
   \<and> (scan_brackets (filter (\<lambda>c. c \<in> BF_COMMANDS) code1) 0 Map.empty [] = Inl e1
        \<longrightarrow> run_brainfuck code1 inp1 = Some (Inl e1))
   \<and> (scan_brackets (filter (\<lambda>c. c \<in> BF_COMMANDS) code2) 0 Map.empty [] = Inr (jumps2, stack2)
        \<and> stack2 \<noteq> []
        \<longrightarrow> run_brainfuck code2 inp2 = Some (Inl (UnmatchedOpen (last stack2))))
   \<and> (run_brainfuck code3 inp3 = Some (Inl e3) \<longrightarrow>
        scan_brackets (filter (\<lambda>c. c \<in> BF_COMMANDS) code3) 0 Map.empty [] = Inl e3
        \<or> (\<exists>jumps stack.
              scan_brackets (filter (\<lambda>c. c \<in> BF_COMMANDS) code3) 0 Map.empty []
                = Inr (jumps, stack) \<and> stack \<noteq> [] \<and> e3 = UnmatchedOpen (last stack))
        \<or> (encode_latin1 inp3 = Inl e3 \<and> e3 = UnicodeEncodeError))"
proof (intro conjI impI)
  show "run_brainfuck (py '']'') inp = Some (Inl (UnmatchedClose 0))"
    by (simp add: run_brainfuck_def BF_COMMANDS_def py_def)
  show "run_brainfuck (py ''['') inp = Some (Inl (UnmatchedOpen 0))"
    by (simp add: run_brainfuck_def BF_COMMANDS_def py_def)
  show "run_brainfuck (py ''[]'') [] = Some (Inr [])"
    by code_simp
next
  assume "scan_brackets (filter (\<lambda>c. c \<in> BF_COMMANDS) code1) 0 Map.empty [] = Inl e1"
  then show "run_brainfuck code1 inp1 = Some (Inl e1)" by (rule run_brainfuck_scan_error)
next
  assume "scan_brackets (filter (\<lambda>c. c \<in> BF_COMMANDS) code2) 0 Map.empty [] = Inr (jumps2, stack2)
      \<and> stack2 \<noteq> []"
  then show "run_brainfuck code2 inp2 = Some (Inl (UnmatchedOpen (last stack2)))"
    by (simp add: run_brainfuck_pending)
next
  assume "run_brainfuck code3 inp3 = Some (Inl e3)"
  then show "scan_brackets (filter (\<lambda>c. c \<in> BF_COMMANDS) code3) 0 Map.empty [] = Inl e3
        \<or> (\<exists>jumps stack.
              scan_brackets (filter (\<lambda>c. c \<in> BF_COMMANDS) code3) 0 Map.empty []
                = Inr (jumps, stack) \<and> stack \<noteq> [] \<and> e3 = UnmatchedOpen (last stack))
        \<or> (encode_latin1 inp3 = Inl e3 \<and> e3 = UnicodeEncodeError)"
    by (rule run_brainfuck_failure_cases)
qed

theorem bracket_errors_before_execution_witness:
  "scan_brackets (filter (\<lambda>c. c \<in> BF_COMMANDS) (py ''+.x]'')) 0 Map.empty [] = Inl (UnmatchedClose 2)
   \<and> run_brainfuck (py ''+.x]'') [] = Some (Inl (UnmatchedClose 2))
   \<and> scan_brackets (filter (\<lambda>c. c \<in> BF_COMMANDS) (py ''+.[+'')) 0 Map.empty [] = Inr (Map.empty, [2])
   \<and> run_brainfuck (py ''+.[+'') [] = Some (Inl (UnmatchedOpen 2))
   \<and> run_brainfuck (py ''+.'') [300] = Some (Inl UnicodeEncodeError)
   \<and> encode_latin1 [300] = Inl UnicodeEncodeError"
proof -
  have h1: "scan_brackets (filter (\<lambda>c. c \<in> BF_COMMANDS) (py ''+.x]'')) 0 Map.empty []
      = Inl (UnmatchedClose 2)"
    by (simp add: BF_COMMANDS_def py_def)
  have h2: "scan_brackets (filter (\<lambda>c. c \<in> BF_COMMANDS) (py ''+.[+'')) 0 Map.empty []
      = Inr (Map.empty, [2])"
    by (simp add: BF_COMMANDS_def py_def)
  have h3: "run_brainfuck (py ''+.'') [300] = Some (Inl UnicodeEncodeError)"
    by code_simp
  have s3: "scan_brackets (filter (\<lambda>c. c \<in> BF_COMMANDS) (py ''+.'')) 0 Map.empty []
      = Inr (Map.empty, [])"
    by (simp add: BF_COMMANDS_def py_def)
  note inst = bracket_errors_before_execution
    [where ?code1.0 = "py ''+.x]''" and ?e1.0 = "UnmatchedClose 2" and ?inp1.0 = "[]"
       and ?code2.0 = "py ''+.[+''" and ?jumps2.0 = Map.empty and ?stack2.0 = "[2]"
       and ?inp2.0 = "[]"
       and ?code3.0 = "py ''+.''" and ?inp3.0 = "[300]" and ?e3.0 = UnicodeEncodeError]
  from inst h1 have c1: "run_brainfuck (py ''+.x]'') [] = Some (Inl (UnmatchedClose 2))"
    by blast
  from inst h2 have c2: "run_brainfuck (py ''+.[+'') [] = Some (Inl (UnmatchedOpen 2))"
    by simp
  from inst h3 s3 have c3: "encode_latin1 [300] = Inl UnicodeEncodeError"
    by simp
  from h1 h2 h3 c1 c2 c3 show ?thesis by blast
qed

subsection \<open>The tape\<close>

text \<open>
  C7. A \<open><\<close> executed with the pointer at 0 puts a zero cell in front of the tape and
  leaves the pointer at 0; the program \<open><+.\<close> prints the character of code 1.
\<close>

theorem pointer_decrement_at_zero_grows_left:
  "(filtered ! pc st = ch CHR ''<'' \<and> ptr st = 0 \<longrightarrow>
      step filtered jumps st = Inr (st\<lparr>tape := 0 # tape st, pc := pc st + 1\<rparr>))
   \<and> run_brainfuck (py ''<+.'') [] = Some (Inr [1])"
proof
  show "filtered ! pc st = ch CHR ''<'' \<and> ptr st = 0 \<longrightarrow>
      step filtered jumps st = Inr (st\<lparr>tape := 0 # tape st, pc := pc st + 1\<rparr>)"
    by (simp add: step_def)
  show "run_brainfuck (py ''<+.'') [] = Some (Inr [1])"
    by code_simp
qed

theorem pointer_decrement_at_zero_grows_left_witness:
  "step (py ''<+.'') Map.empty (init_state []) =
     Inr \<lparr>tape = [0, 0], ptr = 0, pc = 1, out_chars = [], in_buf = []\<rparr>
   \<and> run_brainfuck (py ''<+.'') [] = Some (Inr [1])"
  using pointer_decrement_at_zero_grows_left [of "py ''<+.''" "init_state []" Map.empty]
  by (simp add: py_def init_state_def)

text \<open>
  C6. After any number of passes of the loop, on a program that passed the bracket scan and
  an input that encodes, every cell of the tape is between 0 and 255. \<open>+\<close> and \<open>-\<close>
  store the successor and the predecessor modulo 256, and \<open>-.\<close> prints the character
  of code 255.
\<close>

theorem cells_stay_bytes:
  "(scan_brackets (filter (\<lambda>c. c \<in> BF_COMMANDS) code) 0 Map.empty [] = Inr (jumps, [])
      \<and> encode_latin1 inp = Inr bs \<longrightarrow>
    (\<exists>st. steps n (filter (\<lambda>c. c \<in> BF_COMMANDS) code) jumps (init_state (map int bs)) = Inr st
        \<and> (\<forall>v\<in>set (tape st). 0 \<le> v \<and> v \<le> 255)))
   \<and> (ptr_valid st1 \<and> filtered1 ! pc st1 = ch CHR ''+'' \<longrightarrow>
        step filtered1 jumps1 st1 =
          Inr (st1\<lparr>tape := (tape st1)[nat (ptr st1) := (tape st1 ! nat (ptr st1) + 1) mod 256],
                  pc := pc st1 + 1\<rparr>))
   \<and> (ptr_valid st2 \<and> filtered2 ! pc st2 = ch CHR ''-'' \<longrightarrow>
        step filtered2 jumps2 st2 =
          Inr (st2\<lparr>tape := (tape st2)[nat (ptr st2) := (tape st2 ! nat (ptr st2) - 1) mod 256],
                  pc := pc st2 + 1\<rparr>))
   \<and> run_brainfuck (py ''-.'') [] = Some (Inr [255])"
proof (intro conjI impI)
  assume "scan_brackets (filter (\<lambda>c. c \<in> BF_COMMANDS) code) 0 Map.empty [] = Inr (jumps, [])
      \<and> encode_latin1 inp = Inr bs"
  then obtain st where
    "steps n (filter (\<lambda>c. c \<in> BF_COMMANDS) code) jumps (init_state (map int bs)) = Inr st"
    and "machine_inv st"
    using steps_validated by blast
  then show "\<exists>st. steps n (filter (\<lambda>c. c \<in> BF_COMMANDS) code) jumps (init_state (map int bs)) = Inr st
        \<and> (\<forall>v\<in>set (tape st). 0 \<le> v \<and> v \<le> 255)"
    by (auto simp: machine_inv_def list_all_iff cell_ok_def)
next
  assume "ptr_valid st1 \<and> filtered1 ! pc st1 = ch CHR ''+''"
  then show "step filtered1 jumps1 st1 =
          Inr (st1\<lparr>tape := (tape st1)[nat (ptr st1) := (tape st1 ! nat (ptr st1) + 1) mod 256],
                  pc := pc st1 + 1\<rparr>)"
    by (simp add: step_plus)
next
  assume "ptr_valid st2 \<and> filtered2 ! pc st2 = ch CHR ''-''"
  then show "step filtered2 jumps2 st2 =
          Inr (st2\<lparr>tape := (tape st2)[nat (ptr st2) := (tape st2 ! nat (ptr st2) - 1) mod 256],
                  pc := pc st2 + 1\<rparr>)"
    by (simp add: step_minus)
next
  show "run_brainfuck (py ''-.'') [] = Some (Inr [255])" by code_simp
qed

theorem cells_stay_bytes_witness:
  "scan_brackets (filter (\<lambda>c. c \<in> BF_COMMANDS) (py ''-.'')) 0 Map.empty [] = Inr (Map.empty, [])
   \<and> encode_latin1 [] = Inr []
   \<and> (\<exists>st. steps 1 (filter (\<lambda>c. c \<in> BF_COMMANDS) (py ''-.'')) Map.empty (init_state (map int [])) = Inr st
        \<and> list_all (\<lambda>v. 0 \<le> v \<and> v \<le> 255) (tape st))
   \<and> step (py ''+'') Map.empty \<lparr>tape = [255], ptr = 0, pc = 0, out_chars = [], in_buf = []\<rparr>
       = Inr \<lparr>tape = [0], ptr = 0, pc = 1, out_chars = [], in_buf = []\<rparr>
   \<and> step (py ''-'') Map.empty \<lparr>tape = [0], ptr = 0, pc = 0, out_chars = [], in_buf = []\<rparr>
       = Inr \<lparr>tape = [255], ptr = 0, pc = 1, out_chars = [], in_buf = []\<rparr>
   \<and> run_brainfuck (py ''-.'') [] = Some (Inr [255])"
proof -
  have h1: "scan_brackets (filter (\<lambda>c. c \<in> BF_COMMANDS) (py ''-.'')) 0 Map.empty []
      = Inr (Map.empty, [])"
    by (simp add: BF_COMMANDS_def py_def)
  have h2: "encode_latin1 [] = Inr []" by (simp add: encode_latin1_def)
  note inst = cells_stay_bytes
    [where code = "py ''-.''" and jumps = Map.empty and inp = "[]" and bs = "[]" and n = 1
       and ?st1.0 = "\<lparr>tape = [255], ptr = 0, pc = 0, out_chars = [], in_buf = []\<rparr>"
       and ?filtered1.0 = "py ''+''" and ?jumps1.0 = Map.empty
       and ?st2.0 = "\<lparr>tape = [0], ptr = 0, pc = 0, out_chars = [], in_buf = []\<rparr>"
       and ?filtered2.0 = "py ''-''" and ?jumps2.0 = Map.empty]
  from inst h1 h2 have c1:
    "\<exists>st. steps 1 (filter (\<lambda>c. c \<in> BF_COMMANDS) (py ''-.'')) Map.empty (init_state (map int [])) = Inr st
        \<and> list_all (\<lambda>v. 0 \<le> v \<and> v \<le> 255) (tape st)"
    by (simp add: list_all_iff)
  from inst have c2:
    "step (py ''+'') Map.empty \<lparr>tape = [255], ptr = 0, pc = 0, out_chars = [], in_buf = []\<rparr>
       = Inr \<lparr>tape = [0], ptr = 0, pc = 1, out_chars = [], in_buf = []\<rparr>"
    by (simp add: ptr_valid_def py_def)
  from inst have c3:
    "step (py ''-'') Map.empty \<lparr>tape = [0], ptr = 0, pc = 0, out_chars = [], in_buf = []\<rparr>
       = Inr \<lparr>tape = [255], ptr = 0, pc = 1, out_chars = [], in_buf = []\<rparr>"
    by (simp add: ptr_valid_def py_def)
  from inst have c4: "run_brainfuck (py ''-.'') [] = Some (Inr [255])" by blast
  from h1 h2 c1 c2 c3 c4 show ?thesis by blast
qed

text \<open>
  C8. After any number of passes of the loop, on a program that passed the bracket scan and
  an input that encodes, no pass has raised, the pointer is at least 0 and below the length of
  the tape, and the loop never ends in an \<open>IndexError\<close>. \<open>>\<close> moves the pointer up and
  appends a zero cell when it reaches the length of the tape.
\<close>

theorem pointer_always_valid:
  "(scan_brackets (filter (\<lambda>c. c \<in> BF_COMMANDS) code) 0 Map.empty [] = Inr (jumps, [])
      \<and> encode_latin1 inp = Inr bs \<longrightarrow>
    (\<exists>st. steps n (filter (\<lambda>c. c \<in> BF_COMMANDS) code) jumps (init_state (map int bs)) = Inr st
        \<and> 0 \<le> ptr st \<and> ptr st < int (length (tape st))
        \<and> py_index (tape st) (ptr st) = Inr (nat (ptr st)))
    \<and> exec_loop (filter (\<lambda>c. c \<in> BF_COMMANDS) code) jumps (init_state (map int bs))
        \<noteq> Some (Inl IndexError))
   \<and> (filtered1 ! pc st1 = ch CHR ''>'' \<longrightarrow>
        step filtered1 jumps1 st1 =
          Inr (st1\<lparr>ptr := ptr st1 + 1,
                  tape := (if ptr st1 + 1 = int (length (tape st1)) then tape st1 @ [0]
                           else tape st1),
                  pc := pc st1 + 1\<rparr>))"
proof (intro conjI impI)
  assume h: "scan_brackets (filter (\<lambda>c. c \<in> BF_COMMANDS) code) 0 Map.empty [] = Inr (jumps, [])
      \<and> encode_latin1 inp = Inr bs"
  then obtain st where
    "steps n (filter (\<lambda>c. c \<in> BF_COMMANDS) code) jumps (init_state (map int bs)) = Inr st"
    and "machine_inv st"
    using steps_validated by blast
  then show "\<exists>st. steps n (filter (\<lambda>c. c \<in> BF_COMMANDS) code) jumps (init_state (map int bs)) = Inr st
        \<and> 0 \<le> ptr st \<and> ptr st < int (length (tape st))
        \<and> py_index (tape st) (ptr st) = Inr (nat (ptr st))"
    by (auto simp: machine_inv_def ptr_valid_def py_index_valid)
  from h show "exec_loop (filter (\<lambda>c. c \<in> BF_COMMANDS) code) jumps (init_state (map int bs))
        \<noteq> Some (Inl IndexError)"
    by (intro exec_loop_no_error init_inv latin1_cells scan_brackets_complete) auto
next
  assume "filtered1 ! pc st1 = ch CHR ''>''"
  then show "step filtered1 jumps1 st1 =
          Inr (st1\<lparr>ptr := ptr st1 + 1,
                  tape := (if ptr st1 + 1 = int (length (tape st1)) then tape st1 @ [0]
                           else tape st1),
                  pc := pc st1 + 1\<rparr>)"
    by (rule step_gt)
qed

theorem pointer_always_valid_witness:
  "scan_brackets (filter (\<lambda>c. c \<in> BF_COMMANDS) (py ''><<'')) 0 Map.empty [] = Inr (Map.empty, [])
   \<and> encode_latin1 [] = Inr []
   \<and> (\<exists>st. steps 3 (filter (\<lambda>c. c \<in> BF_COMMANDS) (py ''><<'')) Map.empty (init_state (map int [])) = Inr st
        \<and> 0 \<le> ptr st \<and> ptr st < int (length (tape st)))
   \<and> step (py ''>'') Map.empty (init_state [])
       = Inr \<lparr>tape = [0, 0], ptr = 1, pc = 1, out_chars = [], in_buf = []\<rparr>"
proof -
  have h1: "scan_brackets (filter (\<lambda>c. c \<in> BF_COMMANDS) (py ''><<'')) 0 Map.empty []
      = Inr (Map.empty, [])"
    by (simp add: BF_COMMANDS_def py_def)
  have h2: "encode_latin1 [] = Inr []" by (simp add: encode_latin1_def)
  note inst = pointer_always_valid
    [where code = "py ''><<''" and jumps = Map.empty and inp = "[]" and bs = "[]" and n = 3
       and ?st1.0 = "init_state []" and ?filtered1.0 = "py ''>''" and ?jumps1.0 = Map.empty]
  from inst h1 h2 have c1:
    "\<exists>st. steps 3 (filter (\<lambda>c. c \<in> BF_COMMANDS) (py ''><<'')) Map.empty (init_state (map int [])) = Inr st
        \<and> 0 \<le> ptr st \<and> ptr st < int (length (tape st))"
    by blast
  from inst have c2: "step (py ''>'') Map.empty (init_state [])
       = Inr \<lparr>tape = [0, 0], ptr = 1, pc = 1, out_chars = [], in_buf = []\<rparr>"
    by (simp add: init_state_def py_def)
  from h1 h2 c1 c2 show ?thesis by blast
qed

subsection \<open>Input\<close>

text \<open>
  C10. When every character of \<open>inp\<close> is below 256, the loop starts with the code points of
  \<open>inp\<close> as its buffer; \<open>,\<close> stores the head of the buffer and drops it, or stores 0 when
  the buffer is empty, so that \<open>n\<close> copies of \<open>,.\<close> print the first \<open>n\<close> characters of
  \<open>inp\<close> followed by zeros. When a character is 256 or more, a program that passed the bracket
  scan raises the encoding error without entering the loop, and a program that did not
  raises its bracket error.
\<close>

theorem input_buffer_is_latin1:
  "(list_all (\<lambda>c. c < 256) inp
      \<and> scan_brackets (filter (\<lambda>c. c \<in> BF_COMMANDS) code) 0 Map.empty [] = Inr (jumps, []) \<longrightarrow>
    run_brainfuck code inp =
      (case exec_loop (filter (\<lambda>c. c \<in> BF_COMMANDS) code) jumps (init_state (map int inp)) of
         None \<Rightarrow> None
       | Some (Inl e) \<Rightarrow> Some (Inl e)
       | Some (Inr st) \<Rightarrow> Some (Inr (out_chars st))))
   \<and> in_buf (init_state buf) = buf
   \<and> (ptr_valid st1 \<and> filtered1 ! pc st1 = ch CHR '','' \<longrightarrow>
        step filtered1 jumps1 st1 =
          Inr (st1\<lparr>tape := (tape st1)[nat (ptr st1) :=
                            (case in_buf st1 of [] \<Rightarrow> 0 | b # bs \<Rightarrow> b)],
                  in_buf := tl (in_buf st1), pc := pc st1 + 1\<rparr>))
   \<and> (list_all (\<lambda>c. c < 256) inp2 \<longrightarrow>
        run_brainfuck (concat (replicate n (py '',.''))) inp2
          = Some (Inr (take n (inp2 @ replicate n 0))))
   \<and> (\<not> list_all (\<lambda>c. c < 256) inp3
        \<and> scan_brackets (filter (\<lambda>c. c \<in> BF_COMMANDS) code3) 0 Map.empty [] = Inr (jumps3, [])
        \<longrightarrow> run_brainfuck code3 inp3 = Some (Inl UnicodeEncodeError))
   \<and> (\<not> list_all (\<lambda>c. c < 256) inp4
        \<and> scan_brackets (filter (\<lambda>c. c \<in> BF_COMMANDS) code4) 0 Map.empty [] = Inl e4
        \<longrightarrow> run_brainfuck code4 inp4 = Some (Inl e4))"
proof (intro conjI impI)
  assume "list_all (\<lambda>c. c < 256) inp
      \<and> scan_brackets (filter (\<lambda>c. c \<in> BF_COMMANDS) code) 0 Map.empty [] = Inr (jumps, [])"
  then show "run_brainfuck code inp =
      (case exec_loop (filter (\<lambda>c. c \<in> BF_COMMANDS) code) jumps (init_state (map int inp)) of
         None \<Rightarrow> None
       | Some (Inl e) \<Rightarrow> Some (Inl e)
       | Some (Inr st) \<Rightarrow> Some (Inr (out_chars st)))"
    by (intro run_brainfuck_exec) (simp_all add: encode_latin1_def)
next
  show "in_buf (init_state buf) = buf" by (simp add: init_state_def)
next
  assume "ptr_valid st1 \<and> filtered1 ! pc st1 = ch CHR '',''"
  then show "step filtered1 jumps1 st1 =
          Inr (st1\<lparr>tape := (tape st1)[nat (ptr st1) :=
                            (case in_buf st1 of [] \<Rightarrow> 0 | b # bs \<Rightarrow> b)],
                  in_buf := tl (in_buf st1), pc := pc st1 + 1\<rparr>)"
    by (simp add: step_comma)
next
  assume "list_all (\<lambda>c. c < 256) inp2"
  then show "run_brainfuck (concat (replicate n (py '',.''))) inp2
          = Some (Inr (take n (inp2 @ replicate n 0)))"
    by (rule run_echo)
next
  assume "\<not> list_all (\<lambda>c. c < 256) inp3
        \<and> scan_brackets (filter (\<lambda>c. c \<in> BF_COMMANDS) code3) 0 Map.empty [] = Inr (jumps3, [])"
  then show "run_brainfuck code3 inp3 = Some (Inl UnicodeEncodeError)"
    by (simp add: run_brainfuck_def encode_latin1_def)
next
  assume "\<not> list_all (\<lambda>c. c < 256) inp4
        \<and> scan_brackets (filter (\<lambda>c. c \<in> BF_COMMANDS) code4) 0 Map.empty [] = Inl e4"
  then show "run_brainfuck code4 inp4 = Some (Inl e4)"
    by (simp add: run_brainfuck_scan_error)
qed

theorem input_buffer_is_latin1_witness:
  "list_all (\<lambda>c. c < 256) [65, 200::nat]
   \<and> scan_brackets (filter (\<lambda>c. c \<in> BF_COMMANDS) (py '',.'')) 0 Map.empty [] = Inr (Map.empty, [])
   \<and> run_brainfuck (py '',.'') [65, 200] = Some (Inr [65])
   \<and> step (py '','') Map.empty \<lparr>tape = [7], ptr = 0, pc = 0, out_chars = [], in_buf = [65, 200]\<rparr>
       = Inr \<lparr>tape = [65], ptr = 0, pc = 1, out_chars = [], in_buf = [200]\<rparr>
   \<and> run_brainfuck (concat (replicate 3 (py '',.''))) [65, 200] = Some (Inr [65, 200, 0])
   \<and> \<not> list_all (\<lambda>c. c < 256) [65, 300::nat]
   \<and> scan_brackets (filter (\<lambda>c. c \<in> BF_COMMANDS) (py ''+[]'')) 0 Map.empty []
       = Inr ([2 \<mapsto> 1, 1 \<mapsto> 2], [])
   \<and> run_brainfuck (py ''+[]'') [65, 300] = Some (Inl UnicodeEncodeError)
   \<and> scan_brackets (filter (\<lambda>c. c \<in> BF_COMMANDS) (py ''+]'')) 0 Map.empty []
       = Inl (UnmatchedClose 1)
   \<and> run_brainfuck (py ''+]'') [65, 300] = Some (Inl (UnmatchedClose 1))"
proof -
  have h1: "list_all (\<lambda>c. c < 256) [65, 200::nat]" by simp
  have h2: "scan_brackets (filter (\<lambda>c. c \<in> BF_COMMANDS) (py '',.'')) 0 Map.empty []
      = Inr (Map.empty, [])"
    by (simp add: BF_COMMANDS_def py_def)
  have h3: "\<not> list_all (\<lambda>c. c < 256) [65, 300::nat]" by simp
  have h4: "scan_brackets (filter (\<lambda>c. c \<in> BF_COMMANDS) (py ''+[]'')) 0 Map.empty []
       = Inr ([2 \<mapsto> 1, 1 \<mapsto> 2], [])"
    by (simp add: BF_COMMANDS_def py_def numeral_2_eq_2)
  have h5: "scan_brackets (filter (\<lambda>c. c \<in> BF_COMMANDS) (py ''+]'')) 0 Map.empty []
       = Inl (UnmatchedClose 1)"
    by (simp add: BF_COMMANDS_def py_def)
  have r1: "run_brainfuck (py '',.'') [65, 200] = Some (Inr [65])" by code_simp
  note inst = input_buffer_is_latin1
    [where inp = "[65, 200]" and code = "py '',.''" and jumps = Map.empty
       and ?st1.0 = "\<lparr>tape = [7], ptr = 0, pc = 0, out_chars = [], in_buf = [65, 200]\<rparr>"
       and ?filtered1.0 = "py '',''" and ?jumps1.0 = Map.empty
       and ?inp2.0 = "[65, 200]" and n = 3
       and ?inp3.0 = "[65, 300]" and ?code3.0 = "py ''+[]''" and ?jumps3.0 = "[2 \<mapsto> 1, 1 \<mapsto> 2]"
       and ?inp4.0 = "[65, 300]" and ?code4.0 = "py ''+]''" and ?e4.0 = "UnmatchedClose 1"]
  from inst have c2:
    "step (py '','') Map.empty \<lparr>tape = [7], ptr = 0, pc = 0, out_chars = [], in_buf = [65, 200]\<rparr>
       = Inr \<lparr>tape = [65], ptr = 0, pc = 1, out_chars = [], in_buf = [200]\<rparr>"
    by (simp add: ptr_valid_def py_def)
  from inst h1 have c3:
    "run_brainfuck (concat (replicate 3 (py '',.''))) [65, 200] = Some (Inr [65, 200, 0])"
    by (simp add: numeral_3_eq_3)
  from inst h3 h4 have c4: "run_brainfuck (py ''+[]'') [65, 300] = Some (Inl UnicodeEncodeError)"
    by blast
  from inst h3 h5 have c5: "run_brainfuck (py ''+]'') [65, 300] = Some (Inl (UnmatchedClose 1))"
    by blast
  from h1 h2 h3 h4 h5 r1 c2 c3 c4 c5 show ?thesis by blast
qed

subsection \<open>Comments\<close>

text \<open>
  C9. A source and its restriction to the eight command characters run alike on every
  input, errors included; positions in errors count filtered characters, so the \<open>]\<close> of
  \<open>a b]c\<close> is at position 0.
\<close>

theorem run_brainfuck_ignores_other_characters:
  "run_brainfuck s i = run_brainfuck (filter (\<lambda>c. c \<in> BF_COMMANDS) s) i
   \<and> BF_COMMANDS = {ch CHR ''+'', ch CHR ''-'', ch CHR ''<'', ch CHR ''>'',
                     ch CHR ''['', ch CHR '']'', ch CHR ''.'', ch CHR '',''}
   \<and> run_brainfuck (py ''a b]c'') i = Some (Inl (UnmatchedClose 0))"
  by (auto simp: run_brainfuck_def BF_COMMANDS_def py_def)

end
